theory Spec2Isabelle
  imports Main "HOL-Library.Word"
begin

unbundle bit_operations_syntax

section \<open>Bytes, machine integers and errors\<close>

text \<open>
  The device tree code of \<^verbatim>\<open>hw/arm/apple-silicon/dtb.c\<close> works on bytes
  (\<^verbatim>\<open>uint8_t\<close>, \<^verbatim>\<open>char\<close>), on \<^verbatim>\<open>uint32_t\<close> lengths and counts
  and on a \<^verbatim>\<open>uint64_t\<close> size. A byte is a \<^typ>\<open>char\<close>, so that the texts the
  code compares against can be written as string literals; the integers are words.
\<close>

type_synonym u32 = "32 word"
type_synonym u64 = "64 word"

abbreviation NUL :: char where
  "NUL \<equiv> CHR 0x00"

text \<open>
  What ends a run of the C code without a result: a failed \<^verbatim>\<open>g_assert\<close>, a read
  that runs past the end of an allocation (undefined behaviour in C), and, for the model of
  the recursive deserialiser only, the exhaustion of the recursion fuel.
\<close>

datatype error = AssertFailed | ReadOverrun | OutOfFuel

text \<open>
  Modelled from the spec: the macros \<^verbatim>\<open>ROUND_UP\<close> of \<^verbatim>\<open>qemu/osdep.h\<close> and
  the little-endian accessors \<^verbatim>\<open>ldl_le_p\<close>, \<^verbatim>\<open>stl_le_p\<close> of
  \<^verbatim>\<open>qemu/bswap.h\<close> are not part of the source file. \<^verbatim>\<open>ROUND_UP(n, d)\<close> is
  \<^verbatim>\<open>((n) + (d) - 1) & -(d)\<close>, computed here on \<^verbatim>\<open>uint32_t\<close> as the C
  conversions make it for a \<^verbatim>\<open>uint32_t\<close> argument: it wraps to 0 above
  \<^verbatim>\<open>0xFFFFFFFC\<close>.
\<close>

definition ROUND_UP :: "u32 \<Rightarrow> u32 \<Rightarrow> u32" where
  "ROUND_UP n d = (n + d - 1) AND (- d)"

definition stl_le_p :: "u32 \<Rightarrow> char list" where
  "stl_le_p v =
     [char_of (unat v), char_of (unat v div 2 ^ 8),
      char_of (unat v div 2 ^ 16), char_of (unat v div 2 ^ 24)]"

definition ldl_le_p :: "(nat \<Rightarrow> char) \<Rightarrow> nat \<Rightarrow> u32" where
  "ldl_le_p mem p =
     of_nat (of_char (mem p) + 2 ^ 8 * of_char (mem (p + 1)) +
             2 ^ 16 * of_char (mem (p + 2)) + 2 ^ 24 * of_char (mem (p + 3)))"

definition DT_PROP_NAME_LEN :: nat where
  "DT_PROP_NAME_LEN = 32"

definition DT_PROP_PLACEHOLDER :: u32 where
  "DT_PROP_PLACEHOLDER = push_bit 31 1"

section \<open>C strings\<close>

text \<open>
  A C string argument is the list of its characters before the terminating NUL.
  \<open>strncmp_eq a b n\<close> is \<^verbatim>\<open>strncmp(a, b, n) == 0\<close>: the two texts agree
  on their first \<open>n\<close> characters, or are equal and shorter. The text of an argument
  ends at its first NUL; the end of the list stands for the terminator of a C string, and a
  buffer that is no C string (a property's payload) is only compared up to its own length.
\<close>

definition strncmp_eq :: "char list \<Rightarrow> char list \<Rightarrow> nat \<Rightarrow> bool" where
  "strncmp_eq a b n =
     (take n (takeWhile (\<lambda>c. c \<noteq> NUL) a) = take n (takeWhile (\<lambda>c. c \<noteq> NUL) b))"

text \<open>
  Modelled from the spec: \<^verbatim>\<open>qemu_strsep\<close> of \<^verbatim>\<open>util/cutils.c\<close> is not part of
  the source file. It is \<^verbatim>\<open>strsep\<close>: it returns the text up to the first delimiter
  (or to the NUL), and moves the input behind that delimiter (or to NULL at the NUL). The
  input is the rest of a byte buffer; a scan that reaches the end of the buffer without
  finding a NUL has left the allocation.
\<close>

fun strsep_scan :: "char list \<Rightarrow> string \<Rightarrow> error + (string \<times> char list option)" where
  "strsep_scan [] delim = Inl ReadOverrun"
| "strsep_scan (c # cs) delim =
     (if c = NUL then Inr ([], None)
      else if c \<in> set delim then Inr ([], Some cs)
      else (case strsep_scan cs delim of
              Inl e \<Rightarrow> Inl e
            | Inr (token, rest) \<Rightarrow> Inr (c # token, rest)))"

fun qemu_strsep :: "char list option \<Rightarrow> string \<Rightarrow> error + (string option \<times> char list option)" where
  "qemu_strsep None delim = Inr (None, None)"
| "qemu_strsep (Some s) delim =
     (case strsep_scan s delim of
        Inl e \<Rightarrow> Inl e
      | Inr (token, rest) \<Rightarrow> Inr (Some token, rest))"

text \<open>
  \<^verbatim>\<open>g_ascii_strtoull\<close> is GLib's: \<^verbatim>\<open>strtoull\<close> in the C locale. With base 0
  it skips white space, takes a sign, reads \<^verbatim>\<open>0x\<close> as hexadecimal, a leading
  \<^verbatim>\<open>0\<close> as octal and anything else as decimal, stops at the first character that
  is no digit of the base, and saturates at \<^verbatim>\<open>G_MAXUINT64\<close>.
\<close>

definition ISSPACE :: "char \<Rightarrow> bool" where
  "ISSPACE c = (c = CHR '' '' \<or> c = CHR 0x0C \<or> c = CHR 0x0A \<or> c = CHR 0x0D
                 \<or> c = CHR 0x09 \<or> c = CHR 0x0B)"

definition digit_value :: "char \<Rightarrow> nat option" where
  "digit_value c =
     (let n = (of_char c :: nat) in
      if 48 \<le> n \<and> n \<le> 57 then Some (n - 48)
      else if 65 \<le> n \<and> n \<le> 90 then Some (n - 65 + 10)
      else if 97 \<le> n \<and> n \<le> 122 then Some (n - 97 + 10)
      else None)"

definition G_MAXUINT64 :: u64 where
  "G_MAXUINT64 = - 1"

fun parse_digits :: "nat \<Rightarrow> string \<Rightarrow> bool \<times> u64 \<Rightarrow> bool \<times> u64" where
  "parse_digits base [] st = st"
| "parse_digits base (c # s) (overflow, ui64) =
     (case digit_value c of
        None \<Rightarrow> (overflow, ui64)
      | Some d \<Rightarrow>
          if d \<ge> base then (overflow, ui64)
          else if ui64 > G_MAXUINT64 div of_nat base
                  \<or> (ui64 = G_MAXUINT64 div of_nat base \<and> of_nat d > G_MAXUINT64 mod of_nat base)
          then parse_digits base s (True, ui64)
          else parse_digits base s (overflow, ui64 * of_nat base + of_nat d))"

definition g_parse_long_long :: "string \<Rightarrow> nat \<Rightarrow> u64 \<times> bool" where
  "g_parse_long_long nptr base0 =
     (if base0 = 1 \<or> base0 > 36 then (0, False)
      else
        let s0 = dropWhile ISSPACE nptr in
        if s0 = [] then (0, False)
        else
          let negative = (hd s0 = CHR ''-'');
              s1 = (if hd s0 = CHR ''-'' \<or> hd s0 = CHR ''+'' then tl s0 else s0);
              hex = (s1 \<noteq> [] \<and> hd s1 = CHR ''0'' \<and> (base0 = 0 \<or> base0 = 16)
                     \<and> (case tl s1 of [] \<Rightarrow> False | x # _ \<Rightarrow> x = CHR ''x'' \<or> x = CHR ''X''));
              base = (if hex then 16
                      else if base0 = 0 then (if s1 \<noteq> [] \<and> hd s1 = CHR ''0'' then 8 else 10)
                      else base0);
              s2 = (if hex then drop 2 s1 else s1);
              (overflow, ui64) = parse_digits base s2 (False, 0)
          in (if overflow then G_MAXUINT64 else ui64, negative))"

definition g_ascii_strtoull :: "string \<Rightarrow> nat \<Rightarrow> u64" where
  "g_ascii_strtoull nptr base =
     (let (result, negative) = g_parse_long_long nptr base
      in if negative then - result else result)"

section \<open>The data model\<close>

text \<open>
  Modelled from the spec: the structures \<^verbatim>\<open>DTBProp\<close> and \<^verbatim>\<open>DTBNode\<close> are
  declared in \<^verbatim>\<open>dtb.h\<close>, which is not part of the source file. A property has a
  32-bit length, a payload (the empty list stands for the NULL pointer of a property
  without payload) and the placeholder flag. A node has its properties, a GLib hash table
  from names to properties, and the list of its children. The hash table is an
  association list with distinct keys; its order is the order in which the table's
  iterator visits the entries, which GLib leaves unspecified and keeps fixed as long as
  the table is not changed.
\<close>

record DTBProp =
  length' :: u32
  data :: "char list"
  placeholder :: bool

datatype DTBNode = DTBNode (props: "(string \<times> DTBProp) list") (children: "DTBNode list")

definition g_hash_table_lookup :: "(string \<times> 'v) list \<Rightarrow> string \<Rightarrow> 'v option" where
  "g_hash_table_lookup table key = map_of table key"

definition g_hash_table_insert :: "(string \<times> 'v) list \<Rightarrow> string \<Rightarrow> 'v \<Rightarrow> (string \<times> 'v) list \<times> bool" where
  "g_hash_table_insert table key v =
     (if key \<in> fst ` set table
      then (map (\<lambda>(k, w). if k = key then (k, v) else (k, w)) table, False)
      else (table @ [(key, v)], True))"

definition g_hash_table_remove :: "(string \<times> 'v) list \<Rightarrow> string \<Rightarrow> (string \<times> 'v) list \<times> bool" where
  "g_hash_table_remove table key = (filter (\<lambda>(k, w). k \<noteq> key) table, key \<in> fst ` set table)"

definition g_hash_table_size :: "(string \<times> 'v) list \<Rightarrow> u32" where
  "g_hash_table_size table = of_nat (length table)"

definition g_list_length :: "'a list \<Rightarrow> u32" where
  "g_list_length xs = of_nat (length xs)"

section \<open>The placeholder resolver\<close>

lemma strsep_scan_shorter:
  "strsep_scan s delim = Inr (token, Some rest) \<Longrightarrow> length rest < length s"
  by (induction s arbitrary: token) (auto split: if_splits sum.splits)

lemma qemu_strsep_shorter:
  "qemu_strsep (Some s) delim = Inr (token, Some rest) \<Longrightarrow> length rest < length s"
  by (auto split: sum.splits dest: strsep_scan_shorter)

text \<open>
  The loop of \<^verbatim>\<open>dtb_get_placeholder_size\<close> over the tokens that
  \<^verbatim>\<open>qemu_strsep(&next, ",")\<close> returns; the argument is \<^verbatim>\<open>next\<close>.
\<close>

function placeholder_tokens :: "char list option \<Rightarrow> error + u32" where
  "placeholder_tokens None = Inr 0"
| "placeholder_tokens (Some s) =
     (case qemu_strsep (Some s) '','' of
        Inl e \<Rightarrow> Inl e
      | Inr (None, next) \<Rightarrow> Inr 0
      | Inr (Some token, next) \<Rightarrow>
          if token = [] then placeholder_tokens next
          else if strncmp_eq token ''macaddr/'' 8 then Inr 6
          else if strncmp_eq token ''syscfg/'' 7 then
            (if length token < 12 \<or> token ! 11 \<noteq> CHR ''/'' then placeholder_tokens next
             else
               let len = (ucast (g_ascii_strtoull (drop (8 + 4) token) 0) :: u32) in
               if len = 0 then placeholder_tokens next else Inr len)
          else if strncmp_eq token ''zeroes/'' 7 then
            Inr (ucast (g_ascii_strtoull (drop 7 token) 0))
          else placeholder_tokens next)"
  by pat_completeness auto
termination
  by (relation "measure (\<lambda>next. case next of None \<Rightarrow> 0 | Some s \<Rightarrow> Suc (length s))")
     (auto split: option.splits dest: qemu_strsep_shorter simp del: qemu_strsep.simps)

definition dtb_get_placeholder_size :: "DTBProp \<Rightarrow> string \<Rightarrow> error + u32" where
  "dtb_get_placeholder_size prop name =
     (if \<not> length' prop > 0 then Inl AssertFailed
      else placeholder_tokens (Some (take (unat (length' prop)) (data prop))))"

section \<open>The size calculator\<close>

definition dtb_get_serialised_prop_size :: "DTBProp \<Rightarrow> string \<Rightarrow> error + u64" where
  "dtb_get_serialised_prop_size prop name =
     (if placeholder prop then
        (case dtb_get_placeholder_size prop name of
           Inl e \<Rightarrow> Inl e
         | Inr placeholder_size \<Rightarrow>
             if placeholder_size = 0 then Inr 0
             else Inr (of_nat DT_PROP_NAME_LEN + 4 + ucast (ROUND_UP placeholder_size 4)))
      else Inr (of_nat DT_PROP_NAME_LEN + 4 + ucast (ROUND_UP (length' prop) 4)))"

text \<open>The loop over the hash table's iterator; the last argument is \<^verbatim>\<open>size\<close>, here \<open>size'\<close>.\<close>

fun props_size :: "(string \<times> DTBProp) list \<Rightarrow> u64 \<Rightarrow> error + u64" where
  "props_size [] size' = Inr size'"
| "props_size ((key, v) # rest) size' =
     (case dtb_get_serialised_prop_size v key of
        Inl e \<Rightarrow> Inl e
      | Inr n \<Rightarrow> props_size rest (size' + n))"

fun dtb_get_serialised_node_size :: "DTBNode \<Rightarrow> error + u64"
  and children_size :: "DTBNode list \<Rightarrow> u64 \<Rightarrow> error + u64" where
  "dtb_get_serialised_node_size (DTBNode ps cs) =
     (case props_size ps (4 + 4) of
        Inl e \<Rightarrow> Inl e
      | Inr size' \<Rightarrow> children_size cs size')"
| "children_size [] size' = Inr size'"
| "children_size (child # iter) size' =
     (case dtb_get_serialised_node_size child of
        Inl e \<Rightarrow> Inl e
      | Inr n \<Rightarrow> children_size iter (size' + n))"

section \<open>The serialiser\<close>

text \<open>
  The output buffer lies in a flat memory, a function from addresses to bytes, and the
  cursor \<^verbatim>\<open>*buf\<close> is an address. The C code checks no bound when it writes.
  \<open>memcpy mem p bs\<close> stores the bytes \<open>bs\<close> from address \<open>p\<close> on;
  \<open>strncpy src n\<close> is what \<^verbatim>\<open>strncpy(dst, src, n)\<close> stores: the string, cut at
  \<open>n\<close> characters or filled up to \<open>n\<close> with NUL.
\<close>

type_synonym memory = "nat \<Rightarrow> char"

fun memcpy :: "memory \<Rightarrow> nat \<Rightarrow> char list \<Rightarrow> memory" where
  "memcpy mem p [] = mem"
| "memcpy mem p (b # bs) = memcpy (mem(p := b)) (Suc p) bs"

definition strncpy :: "string \<Rightarrow> nat \<Rightarrow> char list" where
  "strncpy src n =
     (let s = takeWhile (\<lambda>c. c \<noteq> NUL) src in take n s @ replicate (n - length s) NUL)"

text \<open>
  The body of the loop over the properties of a node. The state is the memory, the cursor
  \<^verbatim>\<open>*buf\<close> and \<^verbatim>\<open>prop_count\<close>. A property's payload has
  \<^verbatim>\<open>length\<close> bytes, which \<^verbatim>\<open>memcpy\<close> copies.
\<close>

definition serialise_prop ::
  "string \<times> DTBProp \<Rightarrow> memory \<times> nat \<times> u32 \<Rightarrow> error + memory \<times> nat \<times> u32" where
  "serialise_prop kv st =
     (case (kv, st) of ((key, prop), (mem, buf, prop_count)) \<Rightarrow>
        if placeholder prop then
          (case dtb_get_placeholder_size prop key of
             Inl e \<Rightarrow> Inl e
           | Inr placeholder_size \<Rightarrow>
               if placeholder_size = 0 then Inr (mem, buf, prop_count - 1)
               else
                 let mem1 = memcpy mem buf (strncpy key DT_PROP_NAME_LEN);
                     buf1 = buf + DT_PROP_NAME_LEN;
                     mem2 = memcpy mem1 buf1 (stl_le_p placeholder_size);
                     buf2 = buf1 + 4
                 in Inr (mem2, buf2 + unat (ROUND_UP placeholder_size 4), prop_count))
        else
          let mem1 = memcpy mem buf (strncpy key DT_PROP_NAME_LEN);
              buf1 = buf + DT_PROP_NAME_LEN;
              mem2 = memcpy mem1 buf1 (stl_le_p (length' prop));
              buf2 = buf1 + 4
          in if length' prop \<noteq> 0
             then Inr (memcpy mem2 buf2 (take (unat (length' prop)) (data prop)),
                       buf2 + unat (ROUND_UP (length' prop) 4), prop_count)
             else Inr (mem2, buf2, prop_count))"

fun serialise_props ::
  "(string \<times> DTBProp) list \<Rightarrow> memory \<times> nat \<times> u32 \<Rightarrow> error + memory \<times> nat \<times> u32" where
  "serialise_props [] st = Inr st"
| "serialise_props (kv # rest) st =
     (case serialise_prop kv st of
        Inl e \<Rightarrow> Inl e
      | Inr st' \<Rightarrow> serialise_props rest st')"

fun dtb_serialise_node :: "DTBNode \<Rightarrow> memory \<times> nat \<Rightarrow> error + memory \<times> nat"
  and serialise_children :: "DTBNode list \<Rightarrow> memory \<times> nat \<Rightarrow> error + memory \<times> nat" where
  "dtb_serialise_node (DTBNode ps cs) st =
     (case st of (mem, buf) \<Rightarrow>
        let prop_count = g_hash_table_size ps;
            prop_count_ptr = buf;
            buf1 = buf + 4;
            mem1 = memcpy mem buf1 (stl_le_p (g_list_length cs));
            buf2 = buf1 + 4
        in (case serialise_props ps (mem1, buf2, prop_count) of
              Inl e \<Rightarrow> Inl e
            | Inr (mem2, buf3, prop_count') \<Rightarrow>
                serialise_children cs
                  (memcpy mem2 prop_count_ptr (stl_le_p prop_count'), buf3)))"
| "serialise_children [] st = Inr st"
| "serialise_children (child # iter) st =
     (case dtb_serialise_node child st of
        Inl e \<Rightarrow> Inl e
      | Inr st' \<Rightarrow> serialise_children iter st')"

definition dtb_serialise :: "memory \<Rightarrow> nat \<Rightarrow> DTBNode \<Rightarrow> error + memory" where
  "dtb_serialise mem buf root = map_sum id fst (dtb_serialise_node root (mem, buf))"

section \<open>The property store and the node tree\<close>

text \<open>
  The functions that change a node return the changed node: the C code changes it in
  place. A C string argument is given by its characters; \<open>g_strdup\<close> gives the buffer
  that holds a copy of it, with the terminating NUL.
\<close>

definition strnlen :: "string \<Rightarrow> nat \<Rightarrow> nat" where
  "strnlen s maxlen = min (length (takeWhile (\<lambda>c. c \<noteq> NUL) s)) maxlen"

definition g_strdup :: "string \<Rightarrow> char list" where
  "g_strdup s = takeWhile (\<lambda>c. c \<noteq> NUL) s @ [NUL]"

definition dtb_new_node :: DTBNode where
  "dtb_new_node = DTBNode [] []"

definition dtb_find_prop :: "DTBNode \<Rightarrow> string \<Rightarrow> DTBProp option" where
  "dtb_find_prop node name = g_hash_table_lookup (props node) name"

definition dtb_remove_prop_named :: "DTBNode \<Rightarrow> string \<Rightarrow> DTBNode \<times> bool" where
  "dtb_remove_prop_named node name =
     (case g_hash_table_remove (props node) name of
        (table, found) \<Rightarrow> (DTBNode table (children node), found))"

text \<open>
  \<^verbatim>\<open>dtb_set_prop\<close>: \<open>val\<close> is the buffer the caller passes, \<open>None\<close> for NULL.
  A property that exists is emptied and filled again where it stands in the table; a new
  one is inserted. The result is the property and the changed node.
\<close>

definition dtb_set_prop ::
  "DTBNode \<Rightarrow> string \<Rightarrow> u32 \<Rightarrow> char list option \<Rightarrow> error + DTBProp \<times> DTBNode" where
  "dtb_set_prop node name size' val =
     (if (case val of None \<Rightarrow> size' \<noteq> 0 | Some v \<Rightarrow> size' = 0) then Inl AssertFailed
      else if \<not> strnlen name DT_PROP_NAME_LEN < DT_PROP_NAME_LEN then Inl AssertFailed
      else if (case val of None \<Rightarrow> False | Some v \<Rightarrow> length v < unat size') then Inl ReadOverrun
      else
        let prop = \<lparr>length' = size',
                    data = (case val of None \<Rightarrow> [] | Some v \<Rightarrow> take (unat size') v),
                    placeholder = False\<rparr>;
            table = (case dtb_find_prop node name of
                       None \<Rightarrow> fst (g_hash_table_insert (props node) name prop)
                     | Some old \<Rightarrow>
                         map (\<lambda>(k, w). if k = name then (k, prop) else (k, w)) (props node))
        in Inr (prop, DTBNode table (children node)))"

definition dtb_set_prop_null :: "DTBNode \<Rightarrow> string \<Rightarrow> error + DTBProp \<times> DTBNode" where
  "dtb_set_prop_null node name = dtb_set_prop node name 0 None"

definition dtb_set_prop_u32 :: "DTBNode \<Rightarrow> string \<Rightarrow> u32 \<Rightarrow> error + DTBProp \<times> DTBNode" where
  "dtb_set_prop_u32 node name val = dtb_set_prop node name 4 (Some (stl_le_p val))"

definition stq_le_p :: "u64 \<Rightarrow> char list" where
  "stq_le_p v = map (\<lambda>i. char_of (unat v div 2 ^ (8 * i))) [0..<8]"

definition dtb_set_prop_u64 :: "DTBNode \<Rightarrow> string \<Rightarrow> u64 \<Rightarrow> error + DTBProp \<times> DTBNode" where
  "dtb_set_prop_u64 node name val = dtb_set_prop node name 8 (Some (stq_le_p val))"

definition dtb_set_prop_hwaddr :: "DTBNode \<Rightarrow> string \<Rightarrow> u64 \<Rightarrow> error + DTBProp \<times> DTBNode" where
  "dtb_set_prop_hwaddr node name val = dtb_set_prop node name 8 (Some (stq_le_p val))"

definition dtb_set_prop_str :: "DTBNode \<Rightarrow> string \<Rightarrow> string \<Rightarrow> error + DTBProp \<times> DTBNode" where
  "dtb_set_prop_str node name val =
     dtb_set_prop node name (of_nat (length val + 1)) (Some (val @ [NUL]))"

definition dtb_set_prop_strn ::
  "DTBNode \<Rightarrow> string \<Rightarrow> u32 \<Rightarrow> string \<Rightarrow> error + DTBProp \<times> DTBNode" where
  "dtb_set_prop_strn node name max_len val =
     dtb_set_prop node name max_len
       (if max_len = 0 then None else Some (strncpy val (unat max_len)))"

section \<open>The path resolver\<close>

text \<open>
  The inner loop of \<^verbatim>\<open>dtb_get_node\<close> over the children of a node: the first child
  whose \<^verbatim>\<open>name\<close> property compares equal to the token under
  \<^verbatim>\<open>strncmp(prop->data, token, prop->length)\<close>.
\<close>

fun find_child :: "DTBNode list \<Rightarrow> string \<Rightarrow> DTBNode option" where
  "find_child [] token = None"
| "find_child (child # iter) token =
     (case dtb_find_prop child ''name'' of
        None \<Rightarrow> find_child iter token
      | Some prop \<Rightarrow>
          if strncmp_eq (data prop) token (unat (length' prop)) then Some child
          else find_child iter token)"

text \<open>
  The outer loop; the arguments are \<^verbatim>\<open>node\<close> and \<^verbatim>\<open>next\<close>. The result is the
  node found, as a value, or \<open>None\<close> for NULL.
\<close>

function get_node_tokens :: "DTBNode option \<Rightarrow> char list option \<Rightarrow> error + DTBNode option" where
  "get_node_tokens None next = Inr None"
| "get_node_tokens (Some node) None = Inr (Some node)"
| "get_node_tokens (Some node) (Some s) =
     (case qemu_strsep (Some s) ''/'' of
        Inl e \<Rightarrow> Inl e
      | Inr (None, next) \<Rightarrow> Inr (Some node)
      | Inr (Some token, next) \<Rightarrow>
          if token = [] then get_node_tokens (Some node) next
          else (case find_child (children node) token of
                  None \<Rightarrow> Inr None
                | Some child \<Rightarrow> get_node_tokens (Some child) next))"
  by pat_completeness auto
termination
  by (relation "measure (\<lambda>(node, next). case next of None \<Rightarrow> 0 | Some s \<Rightarrow> Suc (length s))")
     (auto split: option.splits dest: qemu_strsep_shorter simp del: qemu_strsep.simps)

definition dtb_get_node :: "DTBNode option \<Rightarrow> string \<Rightarrow> error + DTBNode option" where
  "dtb_get_node node path = get_node_tokens node (Some (g_strdup path))"

text \<open>
  \<^verbatim>\<open>dtb_create_node\<close>: the arguments are the parent and the name, \<open>None\<close> for
  NULL; the result is the node returned, \<open>None\<close> for NULL, and the parent, which has the
  new node as its last child when one was made.
\<close>

definition dtb_create_node ::
  "DTBNode option \<Rightarrow> string option \<Rightarrow> error + DTBNode option \<times> DTBNode option" where
  "dtb_create_node parent name =
     (case (if parent \<noteq> None
            then (case name of
                    None \<Rightarrow> Inr True
                  | Some n \<Rightarrow> map_sum id (\<lambda>found. found \<noteq> None) (dtb_get_node parent n))
            else Inr False) of
        Inl e \<Rightarrow> Inl e
      | Inr True \<Rightarrow> Inr (None, parent)
      | Inr False \<Rightarrow>
          (case (case name of
                   None \<Rightarrow> Inr dtb_new_node
                 | Some n \<Rightarrow> map_sum id snd (dtb_set_prop_str dtb_new_node ''name'' n)) of
             Inl e \<Rightarrow> Inl e
           | Inr node \<Rightarrow>
               Inr (Some node,
                    map_option (\<lambda>p. DTBNode (props p) (children p @ [node])) parent)))"

section \<open>The deserialiser\<close>

text \<open>
  The blob lies in the flat memory and \<^verbatim>\<open>*dtb_blob\<close> is an address, 0 for NULL. The
  C code is given no length and checks no bound.
\<close>

definition memread :: "memory \<Rightarrow> nat \<Rightarrow> nat \<Rightarrow> char list" where
  "memread mem p n = map mem [p..<p + n]"

definition dtb_deserialise_prop :: "memory \<Rightarrow> nat \<Rightarrow> DTBProp option \<times> string \<times> nat" where
  "dtb_deserialise_prop mem dtb_blob =
     (let name_len = strnlen (memread mem dtb_blob DT_PROP_NAME_LEN) DT_PROP_NAME_LEN;
          name = memread mem dtb_blob name_len;
          blob1 = dtb_blob + DT_PROP_NAME_LEN;
          length0 = ldl_le_p mem blob1;
          flag = (length0 AND DT_PROP_PLACEHOLDER \<noteq> 0);
          len = (if flag then length0 AND NOT DT_PROP_PLACEHOLDER else length0);
          blob2 = blob1 + 4
      in if len \<noteq> 0
         then (Some \<lparr>length' = len, data = memread mem blob2 (unat len), placeholder = flag\<rparr>,
               name, blob2 + unat (ROUND_UP len 4))
         else (Some \<lparr>length' = len, data = [], placeholder = flag\<rparr>, name, blob2))"

text \<open>
  The loop over the property records; the arguments are what is left of
  \<^verbatim>\<open>prop_count\<close>, the table of the node and \<^verbatim>\<open>*dtb_blob\<close>. \<open>None\<close> in the
  result is the return of NULL, after the node has been destroyed.
\<close>

fun deserialise_props ::
  "memory \<Rightarrow> nat \<Rightarrow> (string \<times> DTBProp) list \<times> nat
     \<Rightarrow> error + (string \<times> DTBProp) list option \<times> nat" where
  "deserialise_props mem 0 (table, blob) = Inr (Some table, blob)"
| "deserialise_props mem (Suc n) (table, blob) =
     (case dtb_deserialise_prop mem blob of
        (prop, key, blob') \<Rightarrow>
          if key \<noteq> [] then
            (case prop of
               None \<Rightarrow> Inr (None, blob')
             | Some p \<Rightarrow>
                 (case g_hash_table_insert table key p of
                    (table', fresh) \<Rightarrow>
                      if fresh then deserialise_props mem n (table', blob')
                      else Inl AssertFailed))
          else deserialise_props mem n (table, blob'))"

text \<open>
  The recursion of \<^verbatim>\<open>dtb_deserialise_node\<close> has no bound in the C code; the first
  argument bounds its depth here.
\<close>

fun dtb_deserialise_node :: "nat \<Rightarrow> memory \<Rightarrow> nat \<Rightarrow> error + DTBNode option \<times> nat"
  and deserialise_children ::
    "nat \<Rightarrow> memory \<Rightarrow> nat \<Rightarrow> DTBNode list \<times> nat \<Rightarrow> error + DTBNode list option \<times> nat" where
  "dtb_deserialise_node 0 mem dtb_blob = Inl OutOfFuel"
| "dtb_deserialise_node (Suc fuel) mem dtb_blob =
     (if dtb_blob = 0 then Inr (None, dtb_blob)
      else
        let prop_count = ldl_le_p mem dtb_blob;
            blob1 = dtb_blob + 4;
            children_count = ldl_le_p mem blob1;
            blob2 = blob1 + 4
        in (case deserialise_props mem (unat prop_count) ([], blob2) of
              Inl e \<Rightarrow> Inl e
            | Inr (None, blob3) \<Rightarrow> Inr (None, blob3)
            | Inr (Some table, blob3) \<Rightarrow>
                (case deserialise_children fuel mem (unat children_count) ([], blob3) of
                   Inl e \<Rightarrow> Inl e
                 | Inr (None, blob4) \<Rightarrow> Inr (None, blob4)
                 | Inr (Some cs, blob4) \<Rightarrow> Inr (Some (DTBNode table cs), blob4))))"
| "deserialise_children fuel mem 0 (cs, blob) = Inr (Some cs, blob)"
| "deserialise_children fuel mem (Suc n) (cs, blob) =
     (case dtb_deserialise_node fuel mem blob of
        Inl e \<Rightarrow> Inl e
      | Inr (None, blob') \<Rightarrow> Inr (None, blob')
      | Inr (Some child, blob') \<Rightarrow> deserialise_children fuel mem n (cs @ [child], blob'))"

definition dtb_deserialise :: "nat \<Rightarrow> memory \<Rightarrow> nat \<Rightarrow> error + DTBNode option" where
  "dtb_deserialise fuel mem dtb_blob = map_sum id fst (dtb_deserialise_node fuel mem dtb_blob)"

section \<open>The resolver in the words of the specification\<close>

text \<open>
  The token text is split at the commas, the empty tokens are left out, and the first
  token that decides gives the result, 0 when none does. A token decides when it starts
  with \<^verbatim>\<open>macaddr/\<close>, when it starts with \<^verbatim>\<open>zeroes/\<close>, or when it
  starts with \<^verbatim>\<open>syscfg/\<close>, has at least 12 characters with a \<^verbatim>\<open>/\<close> at
  offset 11, and its number is not 0.
\<close>

fun spec_split :: "char \<Rightarrow> string \<Rightarrow> string list" where
  "spec_split d [] = [[]]"
| "spec_split d (c # cs) =
     (if c = d then [] # spec_split d cs
      else (case spec_split d cs of
              [] \<Rightarrow> [[c]]
            | t # ts \<Rightarrow> (c # t) # ts))"

definition token_number :: "string \<Rightarrow> u32" where
  "token_number s = ucast (g_ascii_strtoull s 0)"

definition token_decides :: "string \<Rightarrow> u32 option" where
  "token_decides t =
     (if take 8 t = ''macaddr/'' then Some 6
      else if take 7 t = ''syscfg/'' then
        (if 12 \<le> length t \<and> t ! 11 = CHR ''/'' \<and> token_number (drop 12 t) \<noteq> 0
         then Some (token_number (drop 12 t)) else None)
      else if take 7 t = ''zeroes/'' then Some (token_number (drop 7 t))
      else None)"

fun first_decisive :: "string list \<Rightarrow> u32" where
  "first_decisive [] = 0"
| "first_decisive (t # ts) = (case token_decides t of Some v \<Rightarrow> v | None \<Rightarrow> first_decisive ts)"

definition resolve_tokens :: "string \<Rightarrow> u32" where
  "resolve_tokens str = first_decisive (filter (\<lambda>t. t \<noteq> []) (spec_split CHR '','' str))"

section \<open>Properties of a whole tree\<close>

text \<open>
  All properties of a tree, in the order in which the two traversals visit them; a
  placeholder property of length 0, on which the resolver's assertion fails; and a
  placeholder property whose payload, within its length, holds the NUL that ends its token
  text.
\<close>

fun all_props :: "DTBNode \<Rightarrow> (string \<times> DTBProp) list" where
  "all_props (DTBNode ps cs) = ps @ concat (map all_props cs)"

definition zero_length_placeholder :: "string \<times> DTBProp \<Rightarrow> bool" where
  "zero_length_placeholder kv = (placeholder (snd kv) \<and> length' (snd kv) = 0)"

definition terminated_placeholder :: "string \<times> DTBProp \<Rightarrow> bool" where
  "terminated_placeholder kv =
     (\<not> placeholder (snd kv) \<or> NUL \<in> set (take (unat (length' (snd kv))) (data (snd kv))))"

text \<open>
  The trees that the round trip through the serialiser and the deserialiser gives back. A
  property has a name that is a non-empty C string of at most 32 characters, is no
  placeholder, and has a payload of the length it declares, below \<open>2 ^ 31\<close>; the names
  of a node are distinct, and a node has fewer than \<open>2 ^ 32\<close> properties and children.
  \<open>depth\<close> is the number of nodes on the longest path from the root down.
\<close>

definition prop_ok :: "string \<times> DTBProp \<Rightarrow> bool" where
  "prop_ok kv =
     (fst kv \<noteq> [] \<and> NUL \<notin> set (fst kv) \<and> length (fst kv) \<le> DT_PROP_NAME_LEN
      \<and> \<not> placeholder (snd kv)
      \<and> unat (length' (snd kv)) = length (data (snd kv))
      \<and> unat (length' (snd kv)) < 2 ^ 31)"

fun tree_ok :: "DTBNode \<Rightarrow> bool" where
  "tree_ok (DTBNode ps cs) =
     (distinct (map fst ps) \<and> list_all prop_ok ps
      \<and> length ps < 2 ^ 32 \<and> length cs < 2 ^ 32 \<and> list_all tree_ok cs)"

fun depth :: "DTBNode \<Rightarrow> nat" where
  "depth (DTBNode ps cs) = Suc (foldr (\<lambda>c. max (depth c)) cs 0)"

text \<open>
  The path resolver in the words of the specification: the path is split at the slashes,
  the empty segments are left out, and each segment selects the first child whose
  \<^verbatim>\<open>name\<close> property compares equal to it up to the property's stored length.
\<close>

definition name_matches :: "DTBNode \<Rightarrow> string \<Rightarrow> bool" where
  "name_matches child seg =
     (case map_of (props child) ''name'' of
        None \<Rightarrow> False
      | Some prop \<Rightarrow> strncmp_eq (data prop) seg (unat (length' prop)))"

definition path_segments :: "string \<Rightarrow> string list" where
  "path_segments path = filter (\<lambda>t. t \<noteq> []) (spec_split CHR ''/'' path)"

fun resolve_segments :: "DTBNode \<Rightarrow> string list \<Rightarrow> DTBNode option" where
  "resolve_segments node [] = Some node"
| "resolve_segments node (seg # segs) =
     (case find (\<lambda>child. name_matches child seg) (children node) of
        None \<Rightarrow> None
      | Some child \<Rightarrow> resolve_segments child segs)"

text \<open>
  A placeholder property that the resolver resolves to 0: the two traversals drop it.
\<close>

definition dropped_placeholder :: "string \<times> DTBProp \<Rightarrow> bool" where
  "dropped_placeholder kv =
     (placeholder (snd kv) \<and> dtb_get_placeholder_size (snd kv) (fst kv) = Inr 0)"

text \<open>
  The tree without the placeholder properties that resolve to 0, at every level.
\<close>

fun drop_placeholders :: "DTBNode \<Rightarrow> DTBNode" where
  "drop_placeholders (DTBNode ps cs) =
     DTBNode (filter (\<lambda>kv. \<not> dropped_placeholder kv) ps) (map drop_placeholders cs)"

section \<open>Example inputs\<close>

text \<open>
  A placeholder property holding a token text as a C string, a memory of zero bytes, and a
  tree with a string property, a property without payload, a placeholder that resolves to
  six bytes, a placeholder that resolves to nothing, and a child without properties.
\<close>

definition placeholder_prop :: "string \<Rightarrow> DTBProp" where
  "placeholder_prop text =
     \<lparr>length' = of_nat (length text + 1), data = text @ [NUL], placeholder = True\<rparr>"

definition zeroed :: memory where
  "zeroed = (\<lambda>_. NUL)"

definition example_tree :: DTBNode where
  "example_tree = DTBNode
     [(''name'', \<lparr>length' = 5, data = ''cpu0'' @ [NUL], placeholder = False\<rparr>),
      (''marker'', \<lparr>length' = 0, data = [], placeholder = False\<rparr>),
      (''mac'', placeholder_prop ''macaddr/eth0''),
      (''gone'', placeholder_prop ''zeroes/0'')]
     [DTBNode [] []]"

text \<open>
  The node that \<^verbatim>\<open>dtb_create_node\<close> makes for a name, with children added, and
  the tree of a root, its child \<^verbatim>\<open>cpu0\<close> and the grandchild \<^verbatim>\<open>reg\<close>.
\<close>

definition named_node :: "string \<Rightarrow> DTBNode list \<Rightarrow> DTBNode" where
  "named_node s cs =
     DTBNode [(''name'', \<lparr>length' = of_nat (length s + 1), data = s @ [NUL],
                          placeholder = False\<rparr>)] cs"

definition path_tree :: DTBNode where
  "path_tree = DTBNode [] [named_node ''cpu0'' [named_node ''reg'' []]]"

text \<open>
  A node with one property of the empty name, as \<^verbatim>\<open>dtb_set_prop_u32\<close> makes it; a
  node with one property \<^verbatim>\<open>abcd\<close>, and the first 12 bytes of its blob: the two
  counts and four bytes of the name field.
\<close>

definition unnamed_prop_tree :: DTBNode where
  "unnamed_prop_tree =
     DTBNode [('''', \<lparr>length' = 4, data = stl_le_p 7, placeholder = False\<rparr>)] []"



definition zero_placeholder_tree :: DTBNode where
  "zero_placeholder_tree = DTBNode
     [(''name'', \<lparr>length' = 5, data = ''cpu0'' @ [NUL], placeholder = False\<rparr>)]
     [DTBNode [(''broken'', \<lparr>length' = 0, data = [], placeholder = True\<rparr>)] []]"

text \<open>
  A node with one placeholder property of eight bytes that hold no NUL, and a memory in
  which every node read at a multiple of 8 has no property and one child: the bytes at the
  addresses \<open>8 * k + 4\<close> are 1, all others 0.
\<close>

definition unterminated_tree :: DTBNode where
  "unterminated_tree =
     DTBNode [(''gap'', \<lparr>length' = 8, data = ''zeroes/8'', placeholder = True\<rparr>)] []"


lemma ROUND_UP_zero [simp]: "ROUND_UP 0 4 = 0"
  by (simp add: ROUND_UP_def)

section \<open>The serialiser advances by the computed size\<close>

lemma rel_sum_cases [consumes 1, case_names Inl Inr]:
  assumes "rel_sum R S x y"
  obtains (Inl) a b where "x = Inl a" "y = Inl b" "R a b"
        | (Inr) a b where "x = Inr a" "y = Inr b" "S a b"
  using assms by (cases x; cases y) auto

lemma serialise_prop_rel:
  "rel_sum (=) (\<lambda>st' n. (word_of_nat (fst (snd st')) :: u64) = word_of_nat buf + n)
     (serialise_prop (k, p) (mem, buf, cnt)) (dtb_get_serialised_prop_size p k)"
  by (simp add: serialise_prop_def dtb_get_serialised_prop_size_def Let_def
        DT_PROP_NAME_LEN_def split: sum.splits)

lemma serialise_props_rel:
  "rel_sum (=) (\<lambda>st' n. (word_of_nat (fst (snd st')) :: u64) - word_of_nat buf = n - acc)
     (serialise_props ps (mem, buf, cnt)) (props_size ps acc)"
proof (induction ps arbitrary: mem buf cnt acc)
  case Nil
  show ?case by simp
next
  case (Cons kv ps)
  obtain k p where kv: "kv = (k, p)" by (cases kv)
  show ?case
    using serialise_prop_rel [of buf k p mem cnt]
  proof (cases rule: rel_sum_cases)
    case (Inl e e')
    then show ?thesis by (simp add: kv)
  next
    case (Inr st1 n)
    obtain mem1 buf1 cnt1 where st1: "st1 = (mem1, buf1, cnt1)" by (cases st1)
    from Inr have b: "(word_of_nat buf1 :: u64) = word_of_nat buf + n" by (simp add: st1)
    have "rel_sum (=) (\<lambda>st' m. (word_of_nat (fst (snd st')) :: u64) - word_of_nat buf1 = m - (acc + n))
       (serialise_props ps (mem1, buf1, cnt1)) (props_size ps (acc + n))"
      by (rule Cons.IH)
    then show ?thesis
      by (cases rule: rel_sum_cases) (simp_all add: kv Inr(1,2) st1 b)
  qed
qed

lemma serialise_children_rel:
  assumes "\<And>c st. c \<in> set cs \<Longrightarrow>
     rel_sum (=) (\<lambda>st' n. (word_of_nat (snd st') :: u64) - word_of_nat (snd st) = n)
       (dtb_serialise_node c st) (dtb_get_serialised_node_size c)"
  shows "rel_sum (=) (\<lambda>st' n. (word_of_nat (snd st') :: u64) - word_of_nat (snd st) = n - acc)
       (serialise_children cs st) (children_size cs acc)"
  using assms
proof (induction cs arbitrary: st acc)
  case Nil
  show ?case by simp
next
  case (Cons c cs)
  have "rel_sum (=) (\<lambda>st' n. (word_of_nat (snd st') :: u64) - word_of_nat (snd st) = n)
       (dtb_serialise_node c st) (dtb_get_serialised_node_size c)"
    by (rule Cons.prems) simp
  then show ?case
  proof (cases rule: rel_sum_cases)
    case (Inl e e')
    then show ?thesis by simp
  next
    case (Inr st1 n)
    have "rel_sum (=) (\<lambda>st' m. (word_of_nat (snd st') :: u64) - word_of_nat (snd st1) = m - (acc + n))
       (serialise_children cs st1) (children_size cs (acc + n))"
      by (rule Cons.IH) (simp add: Cons.prems)
    then show ?thesis
      using Inr(3) by (cases rule: rel_sum_cases) (auto simp: Inr(1,2))
  qed
qed

lemma dtb_serialise_node_rel:
  "rel_sum (=) (\<lambda>st' n. (word_of_nat (snd st') :: u64) - word_of_nat (snd st) = n)
       (dtb_serialise_node T st) (dtb_get_serialised_node_size T)"
proof (induction T arbitrary: st)
  case (DTBNode ps cs)
  obtain mem buf where st: "st = (mem, buf)" by (cases st)
  let ?mem1 = "memcpy mem (buf + 4) (stl_le_p (g_list_length cs))"
  have "rel_sum (=) (\<lambda>st' n. (word_of_nat (fst (snd st')) :: u64) - word_of_nat (8 + buf) = n - 8)
     (serialise_props ps (?mem1, 8 + buf, g_hash_table_size ps)) (props_size ps 8)"
    by (rule serialise_props_rel)
  then show ?case
  proof (cases rule: rel_sum_cases)
    case (Inl e e')
    then show ?thesis by (simp add: st Let_def)
  next
    case (Inr st2 n)
    obtain mem2 buf3 cnt where st2: "st2 = (mem2, buf3, cnt)" by (cases st2)
    have "rel_sum (=) (\<lambda>st' m. (word_of_nat (snd st') :: u64) - word_of_nat (snd (memcpy mem2 buf (stl_le_p cnt), buf3)) = m - n)
        (serialise_children cs (memcpy mem2 buf (stl_le_p cnt), buf3)) (children_size cs n)"
      by (rule serialise_children_rel) (rule DTBNode.IH)
    then show ?thesis
      using Inr(3) by (cases rule: rel_sum_cases) (auto simp: st Let_def Inr(1,2) st2)
  qed
qed

lemma memcpy_apply:
  "memcpy mem p bs a = (if p \<le> a \<and> a < p + length bs then bs ! (a - p) else mem a)"
proof (induction bs arbitrary: mem p)
  case Nil
  show ?case by auto
next
  case (Cons b bs)
  show ?case
    by (auto simp: Cons.IH nth_Cons' Suc_diff_le)
qed

lemma length_strncpy [simp]: "length (strncpy src n) = n"
  by (simp add: strncpy_def Let_def)

lemma length_stl_le_p [simp]: "length (stl_le_p v) = 4"
  by (simp add: stl_le_p_def)

lemma serialise_prop_frame:
  assumes "serialise_prop kv (mem, buf, cnt) = Inr (mem', buf', cnt')"
  shows "buf \<le> buf' \<and> (\<forall>a<buf. mem' a = mem a)"
  using assms
  by (cases kv)
     (auto simp: serialise_prop_def Let_def memcpy_apply split: if_splits sum.splits)

lemma serialise_props_frame:
  assumes "serialise_props ps (mem, buf, cnt) = Inr (mem', buf', cnt')"
  shows "buf \<le> buf' \<and> (\<forall>a<buf. mem' a = mem a)"
  using assms
proof (induction ps arbitrary: mem buf cnt)
  case Nil
  then show ?case by simp
next
  case (Cons kv ps)
  from Cons.prems obtain mem1 buf1 cnt1
    where 1: "serialise_prop kv (mem, buf, cnt) = Inr (mem1, buf1, cnt1)"
      and 2: "serialise_props ps (mem1, buf1, cnt1) = Inr (mem', buf', cnt')"
    by (auto split: sum.splits)
  from serialise_prop_frame [OF 1] Cons.IH [OF 2] show ?case by auto
qed

lemma serialise_children_frame:
  assumes "\<And>c mem buf mem' buf'. c \<in> set cs \<Longrightarrow> dtb_serialise_node c (mem, buf) = Inr (mem', buf')
             \<Longrightarrow> buf \<le> buf' \<and> (\<forall>a<buf. mem' a = mem a)"
    and "serialise_children cs (mem, buf) = Inr (mem', buf')"
  shows "buf \<le> buf' \<and> (\<forall>a<buf. mem' a = mem a)"
  using assms
proof (induction cs arbitrary: mem buf)
  case Nil
  then show ?case by simp
next
  case (Cons c cs)
  from Cons.prems(2) obtain mem1 buf1
    where 1: "dtb_serialise_node c (mem, buf) = Inr (mem1, buf1)"
      and 2: "serialise_children cs (mem1, buf1) = Inr (mem', buf')"
    by (auto split: sum.splits)
  have a: "buf \<le> buf1 \<and> (\<forall>a<buf. mem1 a = mem a)"
    by (rule Cons.prems(1) [OF _ 1]) simp
  have b: "buf1 \<le> buf' \<and> (\<forall>a<buf1. mem' a = mem1 a)"
    by (rule Cons.IH [OF _ 2]) (rule Cons.prems(1) [OF list.set_intros(2)])
  from a b show ?case by auto
qed

lemma dtb_serialise_node_frame:
  "dtb_serialise_node T (mem, buf) = Inr (mem', buf')
     \<Longrightarrow> buf \<le> buf' \<and> (\<forall>a<buf. mem' a = mem a)"
proof (induction T arbitrary: mem buf mem' buf')
  case (DTBNode ps cs)
  let ?mem1 = "memcpy mem (buf + 4) (stl_le_p (g_list_length cs))"
  from DTBNode.prems obtain mem2 buf3 cnt
    where 1: "serialise_props ps (?mem1, buf + 4 + 4, g_hash_table_size ps) = Inr (mem2, buf3, cnt)"
      and 2: "serialise_children cs (memcpy mem2 buf (stl_le_p cnt), buf3) = Inr (mem', buf')"
    by (auto simp: Let_def split: sum.splits)
  note a = serialise_props_frame [OF 1]
  have b: "buf3 \<le> buf' \<and> (\<forall>a<buf3. mem' a = memcpy mem2 buf (stl_le_p cnt) a)"
    by (rule serialise_children_frame [OF _ 2]) (rule DTBNode.IH)
  from a b show ?case by (auto simp: memcpy_apply)
qed

text \<open>
  Claim C1. For every tree, the serialiser and the size calculator stop on the same fatal
  error, or the serialiser returns and has moved the cursor forward by the number the size
  calculator returns: the two agree as 64-bit numbers, and the cursor has advanced by
  exactly that many bytes whenever the advance fits in 64 bits, as it does for every buffer
  of a 64-bit address space.
\<close>

theorem serialise_advances_by_size:
  "case dtb_get_serialised_node_size T of
     Inl e \<Rightarrow> dtb_serialise_node T (mem, buf) = Inl e
   | Inr n \<Rightarrow>
       (\<exists>mem' buf'. dtb_serialise_node T (mem, buf) = Inr (mem', buf') \<and> buf \<le> buf'
          \<and> word_of_nat (buf' - buf) = n
          \<and> (buf' - buf < 2 ^ 64 \<longrightarrow> buf' = buf + unat n))"
  using dtb_serialise_node_rel [of "(mem, buf)" T]
proof (cases rule: rel_sum_cases)
  case (Inl e e')
  then show ?thesis by simp
next
  case (Inr st' n)
  obtain mem' buf' where st': "st' = (mem', buf')" by (cases st')
  from Inr(1) have le: "buf \<le> buf'"
    by (simp add: st' dtb_serialise_node_frame)
  from Inr(3) le have w: "(word_of_nat (buf' - buf) :: u64) = n"
    by (simp add: st' of_nat_diff)
  have "buf' - buf < 2 ^ 64 \<Longrightarrow> unat n = buf' - buf"
    unfolding w [symmetric] by (simp add: unat_of_nat)
  with Inr(1,2) le w show ?thesis
    by (auto simp: st')
qed


lemmas eval_placeholder = dtb_get_placeholder_size_def g_ascii_strtoull_def
  g_parse_long_long_def ISSPACE_def digit_value_def G_MAXUINT64_def strncmp_eq_def
  placeholder_prop_def

lemma placeholder_placeholder_prop [simp]: "placeholder (placeholder_prop t) = True"
  by (simp add: placeholder_prop_def)

lemma placeholder_size_macaddr_eth0:
  "dtb_get_placeholder_size (placeholder_prop ''macaddr/eth0'') k = Inr 6"
  by (simp add: eval_placeholder)

lemma placeholder_size_zeroes_0:
  "dtb_get_placeholder_size (placeholder_prop ''zeroes/0'') k = Inr 0"
  by (simp add: eval_placeholder)

lemma example_tree_size: "dtb_get_serialised_node_size example_tree = Inr 140"
  by (simp add: example_tree_def dtb_get_serialised_prop_size_def ROUND_UP_def
        placeholder_size_macaddr_eth0 placeholder_size_zeroes_0 DT_PROP_NAME_LEN_def)

lemma example_tree_cursor:
  "map_sum id snd (dtb_serialise_node example_tree (zeroed, 4096)) = Inr (4096 + 140)"
  by (simp add: example_tree_def serialise_prop_def ROUND_UP_def Let_def
        placeholder_size_macaddr_eth0 placeholder_size_zeroes_0 DT_PROP_NAME_LEN_def
        g_hash_table_size_def g_list_length_def)

theorem serialise_advances_by_size_witness:
  "dtb_get_serialised_node_size example_tree = Inr 140
   \<and> map_sum id snd (dtb_serialise_node example_tree (zeroed, 4096)) = Inr (4096 + 140)"
  using serialise_advances_by_size [of example_tree zeroed 4096]
  by (simp add: example_tree_size example_tree_cursor)

section \<open>The placeholder resolver\<close>

lemma spec_split_nonempty [simp]: "spec_split d str \<noteq> []"
  by (induction str) (auto split: list.splits)

lemma strsep_scan_text:
  "NUL \<notin> set str \<Longrightarrow>
   strsep_scan (str @ NUL # rest) [d] =
     Inr (hd (spec_split d str),
          if d \<in> set str then Some (tl (dropWhile (\<lambda>c. c \<noteq> d) str) @ NUL # rest) else None)"
  by (induction str) (auto split: list.splits)

lemma tl_spec_split:
  "tl (spec_split d str) =
     (if d \<in> set str then spec_split d (tl (dropWhile (\<lambda>c. c \<noteq> d) str)) else [])"
  by (induction str) (auto split: list.splits)

lemma spec_split_unfold:
  "spec_split d str = hd (spec_split d str) #
     (if d \<in> set str then spec_split d (tl (dropWhile (\<lambda>c. c \<noteq> d) str)) else [])"
  using tl_spec_split [of d str] spec_split_nonempty [of d str]
  by (cases "spec_split d str") auto

lemma set_tl_dropWhile: "x \<in> set (tl (dropWhile P xs)) \<Longrightarrow> x \<in> set xs"
  by (induction xs) (auto split: if_splits)

lemma length_tl_dropWhile: "d \<in> set str \<Longrightarrow> length (tl (dropWhile (\<lambda>c. c \<noteq> d) str)) < length str"
  by (induction str) (auto simp: less_Suc_eq_le length_dropWhile_le)

lemma hd_spec_split_set: "x \<in> set (hd (spec_split d str)) \<Longrightarrow> x \<in> set str"
  by (induction str) (auto split: if_splits list.splits)

lemma token_step:
  assumes "NUL \<notin> set token" "token \<noteq> []"
  shows "(if strncmp_eq token ''macaddr/'' 8 then Inr 6
          else if strncmp_eq token ''syscfg/'' 7 then
            (if length token < 12 \<or> token ! 11 \<noteq> CHR ''/'' then k
             else
               let len = (ucast (g_ascii_strtoull (drop (8 + 4) token) 0) :: u32) in
               if len = 0 then k else Inr len)
          else if strncmp_eq token ''zeroes/'' 7 then
            Inr (ucast (g_ascii_strtoull (drop 7 token) 0))
          else k) = (case token_decides token of Some v \<Rightarrow> Inr v | None \<Rightarrow> (k :: error + u32))"
proof -
  have tw: "takeWhile (\<lambda>c. c \<noteq> NUL) token = token"
    using assms(1) by (induction token) auto
  show ?thesis
    by (simp add: strncmp_eq_def tw token_decides_def token_number_def Let_def not_less)
qed

declare placeholder_tokens.simps(2) [simp del]

lemma placeholder_tokens_refines:
  "NUL \<notin> set str \<Longrightarrow>
   placeholder_tokens (Some (str @ NUL # rest)) = Inr (resolve_tokens str)"
proof (induction str rule: length_induct)
  case (1 str)
  let ?tok = "hd (spec_split CHR '','' str)"
  let ?next = "if CHR '','' \<in> set str
     then Some (tl (dropWhile (\<lambda>c. c \<noteq> CHR '','') str) @ NUL # rest) else None"
  let ?ts = "if CHR '','' \<in> set str
     then spec_split CHR '','' (tl (dropWhile (\<lambda>c. c \<noteq> CHR '','') str)) else []"
  have scan: "strsep_scan (str @ NUL # rest) '','' = Inr (?tok, ?next)"
    using 1(2) by (rule strsep_scan_text)
  have split: "spec_split CHR '','' str = ?tok # ?ts"
    by (rule spec_split_unfold)
  have nxt: "placeholder_tokens ?next = Inr (first_decisive (filter (\<lambda>t. t \<noteq> []) ?ts))"
  proof (cases "CHR '','' \<in> set str")
    case True
    have "placeholder_tokens (Some (tl (dropWhile (\<lambda>c. c \<noteq> CHR '','') str) @ NUL # rest))
        = Inr (resolve_tokens (tl (dropWhile (\<lambda>c. c \<noteq> CHR '','') str)))"
    proof -
      have l: "length (tl (dropWhile (\<lambda>c. c \<noteq> CHR '','') str)) < length str"
        by (rule length_tl_dropWhile [OF True])
      have n: "NUL \<notin> set (tl (dropWhile (\<lambda>c. c \<noteq> CHR '','') str))"
        using 1(2) set_tl_dropWhile by fast
      from 1(1) l n show ?thesis by blast
    qed
    with True show ?thesis by (simp add: resolve_tokens_def)
  next
    case False
    then show ?thesis by simp
  qed
  have nonul: "NUL \<notin> set ?tok"
    using 1(2) by (auto dest: hd_spec_split_set)
  show ?case
  proof (cases "?tok = []")
    case True
    have "resolve_tokens str = first_decisive (filter (\<lambda>t. t \<noteq> []) ?ts)"
      unfolding resolve_tokens_def by (subst split) (simp add: True)
    with True show ?thesis
      by (subst placeholder_tokens.simps(2)) (simp add: scan nxt)
  next
    case False
    have r: "resolve_tokens str =
       (case token_decides ?tok of Some v \<Rightarrow> v | None \<Rightarrow> first_decisive (filter (\<lambda>t. t \<noteq> []) ?ts))"
      unfolding resolve_tokens_def by (subst split) (simp add: False)
    have step: "placeholder_tokens (Some (str @ NUL # rest)) =
       (case token_decides ?tok of Some v \<Rightarrow> Inr v | None \<Rightarrow> placeholder_tokens ?next)"
      using token_step [OF nonul False, of "placeholder_tokens ?next"]
      by (subst placeholder_tokens.simps(2)) (simp add: scan False)
    show ?thesis
      unfolding step r nxt by (simp split: option.splits)
  qed
qed


text \<open>
  Claim C2, as amended. For a placeholder property whose payload starts with a C string,
  the resolver returns what the first deciding token of that string gives, and 0 when no
  token decides; a well-shaped \<^verbatim>\<open>syscfg/\<close> token whose number is 0 does not
  decide, and the scan goes on to the next token.
\<close>

theorem placeholder_size_first_deciding_token:
  assumes "0 < length' prop"
    and "take (unat (length' prop)) (data prop) = str @ NUL # rest"
    and "NUL \<notin> set str"
  shows "dtb_get_placeholder_size prop name = Inr (resolve_tokens str)"
  using assms by (simp add: dtb_get_placeholder_size_def placeholder_tokens_refines)

lemmas eval_resolve = resolve_tokens_def token_decides_def token_number_def
  g_ascii_strtoull_def g_parse_long_long_def ISSPACE_def digit_value_def G_MAXUINT64_def

theorem placeholder_size_first_deciding_token_witness:
  "dtb_get_placeholder_size (placeholder_prop '',bogus,syscfg/ABCD/0,zeroes/0x10,macaddr/eth0'') ''k''
     = Inr 16"
  using placeholder_size_first_deciding_token
    [of "placeholder_prop '',bogus,syscfg/ABCD/0,zeroes/0x10,macaddr/eth0''"
        "'',bogus,syscfg/ABCD/0,zeroes/0x10,macaddr/eth0''" "[]" "''k''"]
  by (simp add: placeholder_prop_def eval_resolve)

theorem syscfg_zero_counterexample:
  "dtb_get_placeholder_size (placeholder_prop ''syscfg/ABCD/0,zeroes/4'') ''k'' = Inr 4
   \<and> dtb_get_placeholder_size (placeholder_prop ''syscfg/ABCD/0,zeroes/4'') ''k'' \<noteq> Inr 0"
  by (simp add: eval_placeholder placeholder_tokens.simps)

text \<open>
  Claim C3. The token texts of the specification's examples resolve to 6, 16, 16 and 0;
  a \<^verbatim>\<open>syscfg/\<close> token takes its number from offset 12, in hexadecimal after
  \<^verbatim>\<open>0x\<close>, and resolves to nothing when offset 11 holds no \<^verbatim>\<open>/\<close> or the
  token has fewer than 12 characters.
\<close>

theorem placeholder_resolution_examples:
  "dtb_get_placeholder_size (placeholder_prop ''macaddr/eth0'') name = Inr 6
   \<and> dtb_get_placeholder_size (placeholder_prop ''syscfg/ABCD/16'') name = Inr 16
   \<and> dtb_get_placeholder_size (placeholder_prop ''zeroes/0x10'') name = Inr 16
   \<and> dtb_get_placeholder_size (placeholder_prop ''bogus'') name = Inr 0
   \<and> dtb_get_placeholder_size (placeholder_prop ''syscfg/ABCD/0x10'') name = Inr 16
   \<and> dtb_get_placeholder_size (placeholder_prop ''syscfg/ABCDE/16'') name = Inr 0
   \<and> dtb_get_placeholder_size (placeholder_prop ''syscfg/ABC'') name = Inr 0"
  by (simp add: eval_placeholder placeholder_tokens.simps)

section \<open>The resolver's assertion\<close>

lemma strsep_scan_error: "strsep_scan s d = Inl e \<Longrightarrow> e = ReadOverrun"
  by (induction s) (auto split: if_splits sum.splits)

lemma qemu_strsep_error: "qemu_strsep x d = Inl e \<Longrightarrow> e = ReadOverrun"
  by (cases x) (auto split: sum.splits dest: strsep_scan_error)

lemma placeholder_tokens_error: "placeholder_tokens nxt = Inl e \<Longrightarrow> e = ReadOverrun"
proof (induction nxt rule: placeholder_tokens.induct)
  case 1
  then show ?case by simp
next
  case (2 s)
  show ?case
  proof (cases "qemu_strsep (Some s) '',''")
    case (Inl e')
    from Inl have "e' = ReadOverrun" by (rule qemu_strsep_error)
    moreover from "2.prems" have "e = e'"
      by (subst (asm) placeholder_tokens.simps(2)) (simp add: Inl del: qemu_strsep.simps)
    ultimately show ?thesis by simp
  next
    case (Inr r)
    obtain tok nxt where r: "r = (tok, nxt)" by (cases r)
    show ?thesis
    proof (cases tok)
      case None
      from "2.prems" show ?thesis
        by (subst (asm) placeholder_tokens.simps(2)) (simp add: Inr r None del: qemu_strsep.simps)
    next
      case (Some token)
      note ih = "2.IH" [OF Inr r [symmetric] Some]
      from "2.prems" have "placeholder_tokens nxt = Inl e"
        by (subst (asm) placeholder_tokens.simps(2))
           (auto simp: Inr r Some Let_def simp del: qemu_strsep.simps split: if_splits)
      moreover from "2.prems" have
         "token = [] \<or> (token \<noteq> [] \<and> \<not> strncmp_eq token ''macaddr/'' 8 \<and>
            ((strncmp_eq token ''syscfg/'' 7 \<and>
                ((length token < 12 \<or> token ! 11 \<noteq> CHR ''/'') \<or>
                 (\<not> (length token < 12 \<or> token ! 11 \<noteq> CHR ''/'') \<and>
                  (ucast (g_ascii_strtoull (drop (8 + 4) token) 0) :: u32) = 0)))
             \<or> (\<not> strncmp_eq token ''syscfg/'' 7 \<and> \<not> strncmp_eq token ''zeroes/'' 7)))"
        by (subst (asm) placeholder_tokens.simps(2))
           (auto simp: Inr r Some Let_def simp del: qemu_strsep.simps split: if_splits)
      ultimately show ?thesis
        using ih by (auto simp: Let_def)
    qed
  qed
qed

lemma placeholder_tokens_terminated:
  assumes "NUL \<in> set s"
  shows "\<exists>n. placeholder_tokens (Some s) = Inr n"
proof -
  from assms obtain str rest where "s = str @ NUL # rest" "NUL \<notin> set str"
    by (meson split_list_first)
  then show ?thesis by (simp add: placeholder_tokens_refines)
qed

lemma prop_size_fatal:
  "zero_length_placeholder (k, p) \<Longrightarrow> dtb_get_serialised_prop_size p k = Inl AssertFailed"
  by (simp add: zero_length_placeholder_def dtb_get_serialised_prop_size_def
        dtb_get_placeholder_size_def)

lemma prop_size_no_assert:
  "\<not> zero_length_placeholder (k, p) \<Longrightarrow> dtb_get_serialised_prop_size p k \<noteq> Inl AssertFailed"
  by (auto simp: zero_length_placeholder_def dtb_get_serialised_prop_size_def
        dtb_get_placeholder_size_def word_greater_zero_iff
        split: sum.splits if_splits dest: placeholder_tokens_error)

lemma prop_size_total:
  "\<not> zero_length_placeholder (k, p) \<Longrightarrow> terminated_placeholder (k, p)
     \<Longrightarrow> \<exists>n. dtb_get_serialised_prop_size p k = Inr n"
  using placeholder_tokens_terminated [of "take (unat (length' p)) (data p)"]
  by (auto simp: zero_length_placeholder_def terminated_placeholder_def
        dtb_get_serialised_prop_size_def dtb_get_placeholder_size_def word_greater_zero_iff
        split: sum.splits)

lemma props_size_fatal:
  "\<exists>kv\<in>set ps. zero_length_placeholder kv \<Longrightarrow> isl (props_size ps acc)"
proof (induction ps arbitrary: acc)
  case Nil
  then show ?case by simp
next
  case (Cons kv ps)
  obtain k p where kv: "kv = (k, p)" by (cases kv)
  show ?case
  proof (cases "dtb_get_serialised_prop_size p k")
    case (Inl e)
    then show ?thesis by (simp add: kv)
  next
    case (Inr n)
    with prop_size_fatal [of k p] have "\<not> zero_length_placeholder kv"
      by (auto simp: kv)
    with Cons.prems have "\<exists>kv\<in>set ps. zero_length_placeholder kv" by auto
    then show ?thesis by (simp add: kv Inr Cons.IH)
  qed
qed

lemma props_size_no_assert:
  "\<forall>kv\<in>set ps. \<not> zero_length_placeholder kv \<Longrightarrow> props_size ps acc \<noteq> Inl AssertFailed"
proof (induction ps arbitrary: acc)
  case Nil
  then show ?case by simp
next
  case (Cons kv ps)
  obtain k p where kv: "kv = (k, p)" by (cases kv)
  from Cons.prems have "dtb_get_serialised_prop_size p k \<noteq> Inl AssertFailed"
    by (simp add: kv prop_size_no_assert)
  with Cons show ?case
    by (auto simp: kv split: sum.splits)
qed

lemma props_size_total:
  "\<forall>kv\<in>set ps. \<not> zero_length_placeholder kv \<and> terminated_placeholder kv
     \<Longrightarrow> \<exists>n. props_size ps acc = Inr n"
proof (induction ps arbitrary: acc)
  case Nil
  then show ?case by simp
next
  case (Cons kv ps)
  obtain k p where kv: "kv = (k, p)" by (cases kv)
  from Cons.prems obtain n where "dtb_get_serialised_prop_size p k = Inr n"
    using prop_size_total [of k p] by (auto simp: kv)
  with Cons show ?case
    by (auto simp: kv)
qed

lemma children_size_fatal:
  "\<exists>c\<in>set cs. isl (dtb_get_serialised_node_size c) \<Longrightarrow> isl (children_size cs acc)"
  by (induction cs arbitrary: acc) (auto split: sum.splits)

lemma children_size_no_assert:
  "\<forall>c\<in>set cs. dtb_get_serialised_node_size c \<noteq> Inl AssertFailed
     \<Longrightarrow> children_size cs acc \<noteq> Inl AssertFailed"
  by (induction cs arbitrary: acc) (auto split: sum.splits)

lemma children_size_total:
  "\<forall>c\<in>set cs. \<exists>n. dtb_get_serialised_node_size c = Inr n
     \<Longrightarrow> \<exists>n. children_size cs acc = Inr n"
  by (induction cs arbitrary: acc) (auto split: sum.splits)

lemma node_size_fatal:
  "\<exists>kv\<in>set (all_props T). zero_length_placeholder kv \<Longrightarrow> isl (dtb_get_serialised_node_size T)"
proof (induction T)
  case (DTBNode ps cs)
  show ?case
  proof (cases "\<exists>kv\<in>set ps. zero_length_placeholder kv")
    case True
    then have "isl (props_size ps (4 + 4))" by (rule props_size_fatal)
    then show ?thesis by (auto simp: isl_def)
  next
    case False
    with DTBNode.prems obtain c where "c \<in> set cs" "\<exists>kv\<in>set (all_props c). zero_length_placeholder kv"
      by auto
    with DTBNode.IH have "\<exists>c\<in>set cs. isl (dtb_get_serialised_node_size c)" by blast
    then have "isl (children_size cs acc)" for acc by (rule children_size_fatal)
    then show ?thesis by (auto split: sum.splits)
  qed
qed

lemma node_size_no_assert:
  "\<forall>kv\<in>set (all_props T). \<not> zero_length_placeholder kv
     \<Longrightarrow> dtb_get_serialised_node_size T \<noteq> Inl AssertFailed"
proof (induction T)
  case (DTBNode ps cs)
  from DTBNode.prems have "props_size ps acc \<noteq> Inl AssertFailed" for acc
    by (intro props_size_no_assert) auto
  moreover have "children_size cs acc \<noteq> Inl AssertFailed" for acc
    using DTBNode by (intro children_size_no_assert) auto
  ultimately show ?case by (auto split: sum.splits)
qed

lemma node_size_total:
  "\<forall>kv\<in>set (all_props T). \<not> zero_length_placeholder kv \<and> terminated_placeholder kv
     \<Longrightarrow> \<exists>n. dtb_get_serialised_node_size T = Inr n"
proof (induction T)
  case (DTBNode ps cs)
  from DTBNode.prems have "\<exists>n. props_size ps acc = Inr n" for acc
    by (intro props_size_total) auto
  moreover have "\<exists>n. children_size cs acc = Inr n" for acc
    using DTBNode by (intro children_size_total) auto
  ultimately show ?case by (auto split: sum.splits) (metis Inl_Inr_False)
qed

lemma serialise_fails_as_size:
  "dtb_serialise_node T st = Inl e \<longleftrightarrow> dtb_get_serialised_node_size T = Inl e"
  using dtb_serialise_node_rel [of st T] by (cases rule: rel_sum_cases) auto

lemma props_size_assert:
  "\<forall>kv\<in>set ps. zero_length_placeholder kv \<or> terminated_placeholder kv
     \<Longrightarrow> \<exists>kv\<in>set ps. zero_length_placeholder kv
     \<Longrightarrow> props_size ps acc = Inl AssertFailed"
proof (induction ps arbitrary: acc)
  case Nil
  then show ?case by simp
next
  case (Cons kv ps)
  obtain k p where kv: "kv = (k, p)" by (cases kv)
  show ?case
  proof (cases "zero_length_placeholder (k, p)")
    case True
    then show ?thesis by (simp add: kv prop_size_fatal)
  next
    case False
    with Cons.prems(1) have "terminated_placeholder (k, p)" by (simp add: kv)
    from prop_size_total [OF False this] obtain n where
      n: "dtb_get_serialised_prop_size p k = Inr n" by blast
    from False Cons.prems have "\<exists>kv\<in>set ps. zero_length_placeholder kv"
      and "\<forall>kv\<in>set ps. zero_length_placeholder kv \<or> terminated_placeholder kv"
      by (auto simp: kv)
    then show ?thesis by (simp add: kv n Cons.IH)
  qed
qed

lemma children_size_assert:
  assumes "\<forall>c\<in>set cs. (\<exists>kv\<in>set (all_props c). zero_length_placeholder kv)
             \<longrightarrow> dtb_get_serialised_node_size c = Inl AssertFailed"
    and "\<forall>c\<in>set cs. \<not> (\<exists>kv\<in>set (all_props c). zero_length_placeholder kv)
             \<longrightarrow> (\<exists>n. dtb_get_serialised_node_size c = Inr n)"
    and "\<exists>c\<in>set cs. \<exists>kv\<in>set (all_props c). zero_length_placeholder kv"
  shows "children_size cs acc = Inl AssertFailed"
  using assms
proof (induction cs arbitrary: acc)
  case Nil
  then show ?case by simp
next
  case (Cons c cs)
  show ?case
  proof (cases "\<exists>kv\<in>set (all_props c). zero_length_placeholder kv")
    case True
    with Cons.prems(1) show ?thesis by simp
  next
    case False
    with Cons.prems(2) obtain n where n: "dtb_get_serialised_node_size c = Inr n" by auto
    from False Cons.prems(3) have "\<exists>c\<in>set cs. \<exists>kv\<in>set (all_props c). zero_length_placeholder kv"
      by auto
    with Cons.prems(1,2) have "children_size cs (acc + n) = Inl AssertFailed"
      by (intro Cons.IH) auto
    then show ?thesis by (simp add: n)
  qed
qed

lemma node_size_assert:
  "\<forall>kv\<in>set (all_props T). zero_length_placeholder kv \<or> terminated_placeholder kv
     \<Longrightarrow> \<exists>kv\<in>set (all_props T). zero_length_placeholder kv
     \<Longrightarrow> dtb_get_serialised_node_size T = Inl AssertFailed"
proof (induction T)
  case (DTBNode ps cs)
  from DTBNode.prems(1) have tp: "\<forall>kv\<in>set ps. zero_length_placeholder kv \<or> terminated_placeholder kv"
    and tc: "\<forall>c\<in>set cs. \<forall>kv\<in>set (all_props c). zero_length_placeholder kv \<or> terminated_placeholder kv"
    by auto
  show ?case
  proof (cases "\<exists>kv\<in>set ps. zero_length_placeholder kv")
    case True
    with tp have "props_size ps (4 + 4) = Inl AssertFailed" by (rule props_size_assert)
    then show ?thesis by simp
  next
    case False
    with tp have "\<forall>kv\<in>set ps. \<not> zero_length_placeholder kv \<and> terminated_placeholder kv"
      by auto
    then obtain n where n: "props_size ps (4 + 4) = Inr n"
      using props_size_total by blast
    from False DTBNode.prems(2) have ex: "\<exists>c\<in>set cs. \<exists>kv\<in>set (all_props c). zero_length_placeholder kv"
      by auto
    have "children_size cs n = Inl AssertFailed"
    proof (rule children_size_assert [OF _ _ ex])
      show "\<forall>c\<in>set cs. (\<exists>kv\<in>set (all_props c). zero_length_placeholder kv)
             \<longrightarrow> dtb_get_serialised_node_size c = Inl AssertFailed"
        using DTBNode.IH tc by blast
      show "\<forall>c\<in>set cs. \<not> (\<exists>kv\<in>set (all_props c). zero_length_placeholder kv)
             \<longrightarrow> (\<exists>n. dtb_get_serialised_node_size c = Inr n)"
        using tc by (auto intro!: node_size_total)
    qed
    with n show ?thesis by simp
  qed
qed

lemma unterminated_tokens: "placeholder_tokens (Some ''zeroes/8'') = Inl ReadOverrun"
  by (simp add: placeholder_tokens.simps(2))

lemma unterminated_size:
  "dtb_get_serialised_node_size unterminated_tree = Inl ReadOverrun"
  by (simp add: unterminated_tree_def dtb_get_serialised_prop_size_def
        dtb_get_placeholder_size_def unterminated_tokens)

text \<open>
  Claim C9, as amended. On a tree that holds a placeholder property of length 0, the size
  calculator and the serialiser both end without a result; when every other placeholder
  payload holds the NUL that ends its token text, both end on the resolver's assertion. On
  a tree whose placeholder properties all have a length other than 0 the assertion fails in
  neither of them, and both return a result when, in addition, every placeholder payload
  holds a NUL within its length: the resolver reads the payload as a C string and checks no
  bound, so that a payload without NUL takes it past the end of its copy.
\<close>

theorem zero_length_placeholder_is_fatal:
  "((\<exists>kv\<in>set (all_props T). zero_length_placeholder kv) \<longrightarrow>
      isl (dtb_get_serialised_node_size T) \<and> isl (dtb_serialise_node T st))
   \<and> ((\<forall>kv\<in>set (all_props T). \<not> zero_length_placeholder kv) \<longrightarrow>
      dtb_get_serialised_node_size T \<noteq> Inl AssertFailed
      \<and> dtb_serialise_node T st \<noteq> Inl AssertFailed)
   \<and> ((\<forall>kv\<in>set (all_props T). zero_length_placeholder kv \<or> terminated_placeholder kv) \<longrightarrow>
        (if \<exists>kv\<in>set (all_props T). zero_length_placeholder kv
         then dtb_get_serialised_node_size T = Inl AssertFailed
              \<and> dtb_serialise_node T st = Inl AssertFailed
         else (\<exists>n. dtb_get_serialised_node_size T = Inr n)
              \<and> (\<exists>st'. dtb_serialise_node T st = Inr st')))"
proof (intro conjI impI)
  assume a: "\<exists>kv\<in>set (all_props T). zero_length_placeholder kv"
  then show "isl (dtb_get_serialised_node_size T)" by (rule node_size_fatal)
  then show "isl (dtb_serialise_node T st)"
    by (auto simp: isl_def serialise_fails_as_size)
next
  assume a: "\<forall>kv\<in>set (all_props T). \<not> zero_length_placeholder kv"
  then show "dtb_get_serialised_node_size T \<noteq> Inl AssertFailed" by (rule node_size_no_assert)
  then show "dtb_serialise_node T st \<noteq> Inl AssertFailed"
    by (simp add: serialise_fails_as_size)
next
  assume b: "\<forall>kv\<in>set (all_props T). zero_length_placeholder kv \<or> terminated_placeholder kv"
  show "if \<exists>kv\<in>set (all_props T). zero_length_placeholder kv
         then dtb_get_serialised_node_size T = Inl AssertFailed
              \<and> dtb_serialise_node T st = Inl AssertFailed
         else (\<exists>n. dtb_get_serialised_node_size T = Inr n)
              \<and> (\<exists>st'. dtb_serialise_node T st = Inr st')"
  proof (cases "\<exists>kv\<in>set (all_props T). zero_length_placeholder kv")
    case True
    with b have "dtb_get_serialised_node_size T = Inl AssertFailed" by (rule node_size_assert)
    with True show ?thesis by (simp add: serialise_fails_as_size)
  next
    case False
    with b have "\<exists>n. dtb_get_serialised_node_size T = Inr n"
      by (intro node_size_total) auto
    moreover from this have "\<exists>st'. dtb_serialise_node T st = Inr st'"
      by (cases "dtb_serialise_node T st") (auto simp: serialise_fails_as_size)
    ultimately show ?thesis using False by simp
  qed
qed

theorem zero_length_placeholder_is_fatal_witness:
  "dtb_get_serialised_node_size zero_placeholder_tree = Inl AssertFailed
   \<and> dtb_serialise_node zero_placeholder_tree (zeroed, 4096) = Inl AssertFailed
   \<and> (\<exists>n. dtb_get_serialised_node_size example_tree = Inr n)
   \<and> (\<exists>st'. dtb_serialise_node example_tree (zeroed, 4096) = Inr st')"
  using zero_length_placeholder_is_fatal [of zero_placeholder_tree "(zeroed, 4096)"]
    zero_length_placeholder_is_fatal [of example_tree "(zeroed, 4096)"]
  by (simp add: zero_placeholder_tree_def example_tree_def zero_length_placeholder_def
        terminated_placeholder_def placeholder_prop_def)

theorem unterminated_placeholder_counterexample:
  "all_props unterminated_tree
     = [(''gap'', \<lparr>length' = 8, data = ''zeroes/8'', placeholder = True\<rparr>)]
   \<and> \<not> zero_length_placeholder (''gap'', \<lparr>length' = 8, data = ''zeroes/8'', placeholder = True\<rparr>)
   \<and> dtb_get_serialised_node_size unterminated_tree = Inl ReadOverrun
   \<and> dtb_serialise_node unterminated_tree (zeroed, 4096) = Inl ReadOverrun"
  using unterminated_size
  by (simp add: serialise_fails_as_size) (simp add: unterminated_tree_def zero_length_placeholder_def)


section \<open>Little-endian words in memory\<close>

lemma le32_digits:
  assumes "n < 2 ^ 32"
  shows "n mod 256 + 256 * (n div 256 mod 256) + 65536 * (n div 65536 mod 256)
           + 16777216 * (n div 16777216 mod 256) = (n::nat)"
proof -
  define a where "a = n div 256"
  define b where "b = a div 256"
  define c where "c = b div 256"
  have 1: "n = n mod 256 + 256 * a" by (simp add: a_def)
  have 2: "a = a mod 256 + 256 * b" by (simp add: b_def)
  have 3: "b = b mod 256 + 256 * c" by (simp add: c_def)
  have b': "n div 65536 = b"
    using div_mult2_eq [of n 256 256] by (simp add: a_def b_def)
  have c': "n div 16777216 = c"
    using div_mult2_eq [of n 65536 256] by (simp add: b' c_def)
  from assms have "c < 256" unfolding c' [symmetric] by simp
  then have 4: "c mod 256 = c" by simp
  show ?thesis
    unfolding b' c' a_def [symmetric] 4 using 1 2 3 by linarith
qed

lemma le32_digits':
  assumes "n < 2 ^ 32"
  shows "n mod 256 + 256 * (n div 256 mod 256) + 65536 * (n div 65536 mod 256)
           + 16777216 * (n div 16777216) = (n::nat)"
proof -
  from assms have "n div 16777216 < 256" by simp
  then have "n div 16777216 mod 256 = n div 16777216" by simp
  with le32_digits [OF assms] show ?thesis by simp
qed

lemma ldl_le_p_stl_le_p:
  assumes "\<forall>i<4. mem (p + i) = stl_le_p v ! i"
  shows "ldl_le_p mem p = v"
proof -
  have m: "mem p = char_of (unat v)" "mem (p + 1) = char_of (unat v div 2 ^ 8)"
       "mem (p + 2) = char_of (unat v div 2 ^ 16)" "mem (p + 3) = char_of (unat v div 2 ^ 24)"
    using assms [rule_format, of 0] assms [rule_format, of 1]
      assms [rule_format, of 2] assms [rule_format, of 3] by (simp_all add: stl_le_p_def)
  have "unat v < 2 ^ 32" using unsigned_less [of v] by simp
  from le32_digits' [OF this] le32_digits [OF this]
  have "(of_char (mem p) + 2 ^ 8 * of_char (mem (p + 1)) +
         2 ^ 16 * of_char (mem (p + 2)) + 2 ^ 24 * of_char (mem (p + 3)) :: nat) = unat v"
    unfolding m by simp
  then show ?thesis
    unfolding ldl_le_p_def by (simp only: of_nat_unat ucast_id)
qed

lemma ldl_le_p_memcpy [simp]: "ldl_le_p (memcpy mem p (stl_le_p v)) p = v"
  by (rule ldl_le_p_stl_le_p) (simp add: memcpy_apply)

lemma ldl_le_p_cong:
  assumes "\<forall>i<4. mem' (p + i) = mem (p + i)"
  shows "ldl_le_p mem' p = ldl_le_p mem p"
  using assms [rule_format, of 0] assms [rule_format, of 1]
      assms [rule_format, of 2] assms [rule_format, of 3]
  by (simp add: ldl_le_p_def)


section \<open>Dropped placeholder properties\<close>

lemma length_memread [simp]: "length (memread mem p n) = n"
  by (simp add: memread_def)

lemma nth_memread [simp]: "i < n \<Longrightarrow> memread mem p n ! i = mem (p + i)"
  by (simp add: memread_def)

lemma memread_cong:
  "\<forall>i<n. mem' (p + i) = mem (p + i) \<Longrightarrow> memread mem' p n = memread mem p n"
  by (simp add: list_eq_iff_nth_eq)

lemma memread_memcpy: "n = length bs \<Longrightarrow> memread (memcpy mem p bs) p n = bs"
  by (simp add: list_eq_iff_nth_eq memcpy_apply)

lemma serialise_prop_dropped:
  "dropped_placeholder (k, p) \<Longrightarrow>
     dtb_get_serialised_prop_size p k = Inr 0
     \<and> serialise_prop (k, p) (mem, buf, cnt) = Inr (mem, buf, cnt - 1)"
  by (simp add: dropped_placeholder_def dtb_get_serialised_prop_size_def serialise_prop_def)

lemma serialise_prop_written:
  assumes "\<not> dropped_placeholder (k, p)"
    and "serialise_prop (k, p) (mem, buf, cnt) = Inr (mem', buf', cnt')"
  shows "cnt' = cnt \<and> buf + 36 \<le> buf' \<and> memread mem' buf 32 = strncpy k 32"
proof -
  have r: "memread (memcpy (memcpy mem buf (strncpy k 32)) (buf + 32) bs) buf 32 = strncpy k 32"
    for bs
    by (simp add: list_eq_iff_nth_eq memcpy_apply)
  have r': "memread (memcpy (memcpy (memcpy mem buf (strncpy k 32)) (buf + 32) bs) (buf + 36) cs)
              buf 32 = strncpy k 32"
    for bs cs
    by (simp add: list_eq_iff_nth_eq memcpy_apply)
  from assms show ?thesis
    by (auto simp: dropped_placeholder_def serialise_prop_def Let_def DT_PROP_NAME_LEN_def
          r r' add.assoc split: if_splits sum.splits)
qed

lemma serialise_prop_count:
  "serialise_prop kv (mem, buf, cnt) = Inr (mem', buf', cnt')
     \<Longrightarrow> cnt' = (if dropped_placeholder kv then cnt - 1 else cnt)"
  by (cases kv)
     (auto simp: dropped_placeholder_def serialise_prop_def Let_def split: if_splits sum.splits)

lemma serialise_props_count:
  "serialise_props ps (mem, buf, cnt) = Inr (mem', buf', cnt')
     \<Longrightarrow> cnt' = cnt - of_nat (length (filter dropped_placeholder ps))"
proof (induction ps arbitrary: mem buf cnt)
  case Nil
  then show ?case by simp
next
  case (Cons kv ps)
  from Cons.prems obtain mem1 buf1 cnt1
    where 1: "serialise_prop kv (mem, buf, cnt) = Inr (mem1, buf1, cnt1)"
      and 2: "serialise_props ps (mem1, buf1, cnt1) = Inr (mem', buf', cnt')"
    by (auto split: sum.splits)
  from serialise_prop_count [OF 1] Cons.IH [OF 2] show ?case by simp
qed

lemma node_prop_count:
  assumes "dtb_serialise_node (DTBNode ps cs) (mem, buf) = Inr (mem', buf')"
  shows "ldl_le_p mem' buf = g_hash_table_size ps - of_nat (length (filter dropped_placeholder ps))"
proof -
  let ?mem1 = "memcpy mem (buf + 4) (stl_le_p (g_list_length cs))"
  from assms obtain mem2 buf3 cnt
    where 1: "serialise_props ps (?mem1, buf + 4 + 4, g_hash_table_size ps) = Inr (mem2, buf3, cnt)"
      and 2: "serialise_children cs (memcpy mem2 buf (stl_le_p cnt), buf3) = Inr (mem', buf')"
    by (auto simp: Let_def split: sum.splits)
  from serialise_props_frame [OF 1] have le: "buf + 8 \<le> buf3" by simp
  have fr: "\<forall>a<buf3. mem' a = memcpy mem2 buf (stl_le_p cnt) a"
    using serialise_children_frame [OF _ 2] dtb_serialise_node_frame by blast
  have "ldl_le_p mem' buf = ldl_le_p (memcpy mem2 buf (stl_le_p cnt)) buf"
    using fr le by (intro ldl_le_p_cong) auto
  also have "\<dots> = cnt" by simp
  finally show ?thesis using serialise_props_count [OF 1] by simp
qed

lemma count_written:
  "g_hash_table_size ps - of_nat (length (filter dropped_placeholder ps))
     = of_nat (length (filter (\<lambda>kv. \<not> dropped_placeholder kv) ps))"
proof -
  have "length ps = length (filter dropped_placeholder ps)
          + length (filter (\<lambda>kv. \<not> dropped_placeholder kv) ps)"
    by (simp add: sum_length_filter_compl)
  then have "(of_nat (length ps) :: u32) = of_nat (length (filter dropped_placeholder ps))
          + of_nat (length (filter (\<lambda>kv. \<not> dropped_placeholder kv) ps))"
    by (metis of_nat_add)
  then show ?thesis by (simp add: g_hash_table_size_def)
qed

lemma props_size_filter:
  "props_size ps acc = props_size (filter (\<lambda>kv. \<not> dropped_placeholder kv) ps) acc"
proof (induction ps arbitrary: acc)
  case Nil
  show ?case by simp
next
  case (Cons kv ps)
  obtain k p where kv: "kv = (k, p)" by (cases kv)
  show ?case
  proof (cases "dropped_placeholder (k, p)")
    case True
    then have "dtb_get_serialised_prop_size p k = Inr 0"
      by (simp add: serialise_prop_dropped)
    with True show ?thesis by (simp add: kv Cons.IH)
  next
    case False
    then show ?thesis by (simp add: kv Cons.IH split: sum.splits)
  qed
qed

lemma children_size_map:
  "\<forall>c\<in>set cs. dtb_get_serialised_node_size (f c) = dtb_get_serialised_node_size c
     \<Longrightarrow> children_size (map f cs) acc = children_size cs acc"
  by (induction cs arbitrary: acc) (simp_all split: sum.splits)

lemma serialise_children_map:
  "\<forall>c\<in>set cs. \<forall>st. dtb_serialise_node (f c) st = dtb_serialise_node c st
     \<Longrightarrow> serialise_children (map f cs) st = serialise_children cs st"
proof (induction cs arbitrary: st)
  case Nil
  show ?case by simp
next
  case (Cons c cs)
  from Cons.prems have 1: "dtb_serialise_node (f c) st = dtb_serialise_node c st"
    by (simp del: split_paired_All)
  from Cons.prems have 2: "serialise_children (map f cs) st' = serialise_children cs st'" for st'
    by (intro Cons.IH) (simp del: split_paired_All)
  show ?case by (simp add: 1 2 split: sum.splits)
qed

lemma serialise_prop_any_count:
  "rel_sum (=) (\<lambda>s s'. fst s = fst s' \<and> fst (snd s) = fst (snd s'))
     (serialise_prop kv (mem, buf, cnt)) (serialise_prop kv (mem, buf, cnt'))"
  by (cases kv) (simp add: serialise_prop_def Let_def split: sum.splits)

lemma serialise_props_filter:
  "rel_sum (=) (\<lambda>s s'. fst s = fst s' \<and> fst (snd s) = fst (snd s'))
     (serialise_props ps (mem, buf, cnt))
     (serialise_props (filter (\<lambda>kv. \<not> dropped_placeholder kv) ps) (mem, buf, cnt'))"
proof (induction ps arbitrary: mem buf cnt cnt')
  case Nil
  show ?case by simp
next
  case (Cons kv ps)
  obtain k p where kv: "kv = (k, p)" by (cases kv)
  show ?case
  proof (cases "dropped_placeholder (k, p)")
    case True
    then have "serialise_prop (k, p) (mem, buf, cnt) = Inr (mem, buf, cnt - 1)"
      by (simp add: serialise_prop_dropped)
    with True show ?thesis by (simp add: kv Cons.IH)
  next
    case False
    from serialise_prop_any_count [of "(k, p)" mem buf cnt cnt'] show ?thesis
    proof (cases rule: rel_sum_cases)
      case (Inl e e')
      with False show ?thesis by (simp add: kv)
    next
      case (Inr s s')
      obtain m b c where s: "s = (m, b, c)" by (cases s)
      obtain m' b' c' where s': "s' = (m', b', c')" by (cases s')
      from Inr(3) have e: "m' = m" "b' = b" by (simp_all add: s s')
      from False show ?thesis
        by (simp add: kv Inr(1,2) s s' e Cons.IH)
    qed
  qed
qed

lemma no_dropped_left [simp]:
  "filter dropped_placeholder (filter (\<lambda>kv. \<not> dropped_placeholder kv) ps) = []"
  by (induction ps) simp_all

lemma node_size_filter:
  "dtb_get_serialised_node_size (DTBNode (filter (\<lambda>kv. \<not> dropped_placeholder kv) ps) cs)
     = dtb_get_serialised_node_size (DTBNode ps cs)"
  using props_size_filter [of ps "4 + 4"] by simp

lemma serialise_node_filter:
  "dtb_serialise_node (DTBNode (filter (\<lambda>kv. \<not> dropped_placeholder kv) ps) cs) (mem, buf)
     = dtb_serialise_node (DTBNode ps cs) (mem, buf)"
proof -
  let ?fs = "filter (\<lambda>kv. \<not> dropped_placeholder kv) ps"
  let ?mem1 = "memcpy mem (buf + 4) (stl_le_p (g_list_length cs))"
  from serialise_props_filter [of ps ?mem1 "buf + 4 + 4" "g_hash_table_size ps" "g_hash_table_size ?fs"]
  show ?thesis
  proof (cases rule: rel_sum_cases)
    case (Inl e e')
    then show ?thesis by (simp add: Let_def)
  next
    case (Inr s s')
    obtain m b c where s: "s = (m, b, c)" by (cases s)
    obtain m' b' c' where s': "s' = (m', b', c')" by (cases s')
    from Inr(3) have e: "m' = m" "b' = b" by (simp_all add: s s')
    from Inr(1) have "c = g_hash_table_size ps - of_nat (length (filter dropped_placeholder ps))"
      unfolding s by (rule serialise_props_count)
    moreover from Inr(2) have "c' = g_hash_table_size ?fs
        - of_nat (length (filter dropped_placeholder ?fs))"
      unfolding s' by (rule serialise_props_count)
    ultimately have "c' = c"
      using count_written [of ps] by (simp add: g_hash_table_size_def)
    with Inr(1,2) show ?thesis by (simp add: Let_def s s' e)
  qed
qed

lemma node_size_children_map:
  "\<forall>c\<in>set cs. dtb_get_serialised_node_size (f c) = dtb_get_serialised_node_size c
     \<Longrightarrow> dtb_get_serialised_node_size (DTBNode ps (map f cs))
           = dtb_get_serialised_node_size (DTBNode ps cs)"
  by (simp add: children_size_map split: sum.splits)

lemma serialise_node_children_map:
  "\<forall>c\<in>set cs. \<forall>st. dtb_serialise_node (f c) st = dtb_serialise_node c st
     \<Longrightarrow> dtb_serialise_node (DTBNode ps (map f cs)) st = dtb_serialise_node (DTBNode ps cs) st"
  by (cases st) (simp add: serialise_children_map Let_def g_list_length_def split: sum.splits)

lemma size_drop_placeholders:
  "dtb_get_serialised_node_size (drop_placeholders T) = dtb_get_serialised_node_size T"
proof (induction T)
  case (DTBNode ps cs)
  let ?fs = "filter (\<lambda>kv. \<not> dropped_placeholder kv) ps"
  have "dtb_get_serialised_node_size (DTBNode ?fs (map drop_placeholders cs))
          = dtb_get_serialised_node_size (DTBNode ?fs cs)"
    by (rule node_size_children_map) (simp add: DTBNode.IH)
  then show ?case by (simp only: drop_placeholders.simps node_size_filter)
qed

lemma serialise_drop_placeholders:
  "dtb_serialise_node (drop_placeholders T) st = dtb_serialise_node T st"
proof (induction T arbitrary: st)
  case (DTBNode ps cs)
  let ?fs = "filter (\<lambda>kv. \<not> dropped_placeholder kv) ps"
  obtain mem buf where st: "st = (mem, buf)" by (cases st)
  have "dtb_serialise_node (DTBNode ?fs (map drop_placeholders cs)) st
          = dtb_serialise_node (DTBNode ?fs cs) st"
    by (rule serialise_node_children_map) (simp add: DTBNode.IH)
  then show ?case by (simp only: drop_placeholders.simps st serialise_node_filter)
qed

lemma example_tree_split:
  "example_tree = DTBNode
     ([(''name'', \<lparr>length' = 5, data = ''cpu0'' @ [NUL], placeholder = False\<rparr>),
       (''marker'', \<lparr>length' = 0, data = [], placeholder = False\<rparr>),
       (''mac'', placeholder_prop ''macaddr/eth0'')]
      @ (''gone'', placeholder_prop ''zeroes/0'') # [])
     [DTBNode [] []]"
  by (simp add: example_tree_def)

lemma mac_step:
  "serialise_prop (''mac'', placeholder_prop ''macaddr/eth0'') (zeroed, 4096, 4)
     = Inr (memcpy (memcpy zeroed 4096 (strncpy ''mac'' 32)) 4128 (stl_le_p 6), 4140, 4)"
  by (simp add: serialise_prop_def placeholder_size_macaddr_eth0 Let_def DT_PROP_NAME_LEN_def
        ROUND_UP_def del: memcpy.simps)

text \<open>
  Claim C5. A placeholder property that resolves to 0 contributes nothing: for a node that
  holds it, with any properties before and after it, the size calculator returns what it
  returns for the node without it, and the serialiser leaves the same memory and the same
  cursor as for the node without it; its own size is 0, and the serialiser's step for it
  changes neither memory nor cursor and takes 1 off the property count. The same holds for
  all such properties of a node at once, and for all of them in a whole tree, also for
  \<^verbatim>\<open>dtb_serialise\<close>. Every other property whose step returns has
  its record written: the 32 bytes of the name field at the cursor, and a cursor at least
  36 bytes further. When a node has been serialised, its property-count field holds the
  size of the property table less the number of dropped placeholders, which is the number
  of the properties that were written.
\<close>

theorem dropped_placeholder_leaves_no_record:
  "(dropped_placeholder (k, p) \<longrightarrow>
      dtb_get_serialised_node_size (DTBNode (ps1 @ (k, p) # ps2) cs)
        = dtb_get_serialised_node_size (DTBNode (ps1 @ ps2) cs)
      \<and> dtb_serialise_node (DTBNode (ps1 @ (k, p) # ps2) cs) (mem, buf)
        = dtb_serialise_node (DTBNode (ps1 @ ps2) cs) (mem, buf)
      \<and> dtb_get_serialised_prop_size p k = Inr 0
      \<and> serialise_prop (k, p) (mem, buf, cnt) = Inr (mem, buf, cnt - 1))
   \<and> dtb_get_serialised_node_size (DTBNode ps cs)
       = dtb_get_serialised_node_size (DTBNode (filter (\<lambda>kv. \<not> dropped_placeholder kv) ps) cs)
   \<and> dtb_serialise_node (DTBNode ps cs) (mem, buf)
       = dtb_serialise_node (DTBNode (filter (\<lambda>kv. \<not> dropped_placeholder kv) ps) cs) (mem, buf)
   \<and> dtb_get_serialised_node_size T = dtb_get_serialised_node_size (drop_placeholders T)
   \<and> dtb_serialise_node T (mem, buf) = dtb_serialise_node (drop_placeholders T) (mem, buf)
   \<and> dtb_serialise mem buf T = dtb_serialise mem buf (drop_placeholders T)
   \<and> (\<not> dropped_placeholder (k, p) \<longrightarrow>
        (\<forall>mem' buf' cnt'. serialise_prop (k, p) (mem, buf, cnt) = Inr (mem', buf', cnt') \<longrightarrow>
            cnt' = cnt \<and> buf + 36 \<le> buf' \<and> memread mem' buf 32 = strncpy k 32))
   \<and> (\<forall>mem' buf'. dtb_serialise_node (DTBNode ps cs) (mem, buf) = Inr (mem', buf') \<longrightarrow>
        ldl_le_p mem' buf = g_hash_table_size ps - of_nat (length (filter dropped_placeholder ps))
        \<and> ldl_le_p mem' buf = of_nat (length (filter (\<lambda>kv. \<not> dropped_placeholder kv) ps)))"
proof (intro conjI impI allI)
  assume d: "dropped_placeholder (k, p)"
  then have f: "filter (\<lambda>kv. \<not> dropped_placeholder kv) (ps1 @ (k, p) # ps2)
      = filter (\<lambda>kv. \<not> dropped_placeholder kv) (ps1 @ ps2)"
    by simp
  show "dtb_get_serialised_node_size (DTBNode (ps1 @ (k, p) # ps2) cs)
        = dtb_get_serialised_node_size (DTBNode (ps1 @ ps2) cs)"
    using node_size_filter [of "ps1 @ (k, p) # ps2" cs] node_size_filter [of "ps1 @ ps2" cs]
    unfolding f by simp
  show "dtb_serialise_node (DTBNode (ps1 @ (k, p) # ps2) cs) (mem, buf)
        = dtb_serialise_node (DTBNode (ps1 @ ps2) cs) (mem, buf)"
    using serialise_node_filter [of "ps1 @ (k, p) # ps2" cs mem buf]
      serialise_node_filter [of "ps1 @ ps2" cs mem buf]
    unfolding f by simp
  from serialise_prop_dropped [OF d, of mem buf cnt]
  show "dtb_get_serialised_prop_size p k = Inr 0"
    and "serialise_prop (k, p) (mem, buf, cnt) = Inr (mem, buf, cnt - 1)"
    by simp_all
next
  show "dtb_get_serialised_node_size (DTBNode ps cs)
       = dtb_get_serialised_node_size (DTBNode (filter (\<lambda>kv. \<not> dropped_placeholder kv) ps) cs)"
    by (rule node_size_filter [symmetric])
next
  show "dtb_serialise_node (DTBNode ps cs) (mem, buf)
       = dtb_serialise_node (DTBNode (filter (\<lambda>kv. \<not> dropped_placeholder kv) ps) cs) (mem, buf)"
    by (rule serialise_node_filter [symmetric])
next
  show "dtb_get_serialised_node_size T = dtb_get_serialised_node_size (drop_placeholders T)"
    by (rule size_drop_placeholders [symmetric])
next
  show "dtb_serialise_node T (mem, buf) = dtb_serialise_node (drop_placeholders T) (mem, buf)"
    by (rule serialise_drop_placeholders [symmetric])
next
  show "dtb_serialise mem buf T = dtb_serialise mem buf (drop_placeholders T)"
    by (simp add: dtb_serialise_def serialise_drop_placeholders)
next
  fix mem' buf' cnt'
  assume "\<not> dropped_placeholder (k, p)"
    and "serialise_prop (k, p) (mem, buf, cnt) = Inr (mem', buf', cnt')"
  from serialise_prop_written [OF this]
  show "cnt' = cnt" and "buf + 36 \<le> buf'" and "memread mem' buf 32 = strncpy k 32"
    by simp_all
next
  fix mem' buf'
  assume "dtb_serialise_node (DTBNode ps cs) (mem, buf) = Inr (mem', buf')"
  from node_prop_count [OF this]
  show "ldl_le_p mem' buf = g_hash_table_size ps - of_nat (length (filter dropped_placeholder ps))"
    and "ldl_le_p mem' buf = of_nat (length (filter (\<lambda>kv. \<not> dropped_placeholder kv) ps))"
    by (simp_all add: count_written)
qed


theorem dropped_placeholder_leaves_no_record_witness:
  "dtb_get_serialised_prop_size (placeholder_prop ''zeroes/0'') ''gone'' = Inr 0
   \<and> serialise_prop (''gone'', placeholder_prop ''zeroes/0'') (zeroed, 4096, 4) = Inr (zeroed, 4096, 3)
   \<and> dtb_get_serialised_node_size example_tree = Inr 140
   \<and> dtb_get_serialised_node_size (DTBNode
        [(''name'', \<lparr>length' = 5, data = ''cpu0'' @ [NUL], placeholder = False\<rparr>),
         (''marker'', \<lparr>length' = 0, data = [], placeholder = False\<rparr>),
         (''mac'', placeholder_prop ''macaddr/eth0'')] [DTBNode [] []]) = Inr 140
   \<and> dtb_serialise_node example_tree (zeroed, 4096)
       = dtb_serialise_node (DTBNode
           [(''name'', \<lparr>length' = 5, data = ''cpu0'' @ [NUL], placeholder = False\<rparr>),
            (''marker'', \<lparr>length' = 0, data = [], placeholder = False\<rparr>),
            (''mac'', placeholder_prop ''macaddr/eth0'')] [DTBNode [] []]) (zeroed, 4096)
   \<and> (case dtb_serialise_node example_tree (zeroed, 4096) of
         Inl e \<Rightarrow> False
       | Inr (mem', buf') \<Rightarrow> buf' = 4096 + 140 \<and> ldl_le_p mem' 4096 = 3)
   \<and> memread (memcpy (memcpy zeroed 4096 (strncpy ''mac'' 32)) 4128 (stl_le_p 6)) 4096 32
       = strncpy ''mac'' 32"
proof -
  let ?kept = "[(''name'', \<lparr>length' = 5, data = ''cpu0'' @ [NUL], placeholder = False\<rparr>),
      (''marker'', \<lparr>length' = 0, data = [], placeholder = False\<rparr>),
      (''mac'', placeholder_prop ''macaddr/eth0'')]"
  have d: "dropped_placeholder (''gone'', placeholder_prop ''zeroes/0'')"
    by (simp add: dropped_placeholder_def placeholder_size_zeroes_0)
  have m: "\<not> dropped_placeholder (''mac'', placeholder_prop ''macaddr/eth0'')"
    by (simp add: dropped_placeholder_def placeholder_size_macaddr_eth0)
  have n: "filter (\<lambda>kv. \<not> dropped_placeholder kv) (props example_tree) = ?kept"
    by (simp add: example_tree_def dropped_placeholder_def placeholder_size_zeroes_0
          placeholder_size_macaddr_eth0)
  from example_tree_cursor obtain mem' where
    s: "dtb_serialise_node example_tree (zeroed, 4096) = Inr (mem', 4096 + 140)"
    by (cases "dtb_serialise_node example_tree (zeroed, 4096)") auto
  have e: "DTBNode (props example_tree) (children example_tree) = example_tree" by simp
  have c: "children example_tree = [DTBNode [] []]" by (simp add: example_tree_def)
  note t = dropped_placeholder_leaves_no_record
    [of "''gone''" "placeholder_prop ''zeroes/0''" ?kept "[]" "[DTBNode [] []]" zeroed 4096 4
        "[]" example_tree, folded example_tree_split, unfolded append_Nil2]
  from t d have a: "dtb_get_serialised_node_size example_tree
        = dtb_get_serialised_node_size (DTBNode ?kept [DTBNode [] []])"
     and b: "dtb_serialise_node example_tree (zeroed, 4096)
        = dtb_serialise_node (DTBNode ?kept [DTBNode [] []]) (zeroed, 4096)"
    by blast+
  from t d have g: "dtb_get_serialised_prop_size (placeholder_prop ''zeroes/0'') ''gone'' = Inr 0"
    and h: "serialise_prop (''gone'', placeholder_prop ''zeroes/0'') (zeroed, 4096, 4)
              = Inr (zeroed, 4096, 4 - 1)"
    by blast+
  from h have h': "serialise_prop (''gone'', placeholder_prop ''zeroes/0'') (zeroed, 4096, 4)
              = Inr (zeroed, 4096, 3)"
    by simp
  note t' = dropped_placeholder_leaves_no_record
    [of "''gone''" "placeholder_prop ''zeroes/0''" "[]" "[]" "children example_tree" zeroed 4096 4
        "props example_tree" example_tree, unfolded e]
  from t' s have k: "ldl_le_p mem' 4096
        = of_nat (length (filter (\<lambda>kv. \<not> dropped_placeholder kv) (props example_tree)))"
    by blast
  have k': "ldl_le_p mem' 4096 = 3"
    unfolding k n by simp
  note u = dropped_placeholder_leaves_no_record
    [of "''mac''" "placeholder_prop ''macaddr/eth0''" "[]" "[]" "[]" zeroed 4096 4 "[]" example_tree]
  from u m mac_step
  have w: "memread (memcpy (memcpy zeroed 4096 (strncpy ''mac'' 32)) 4128 (stl_le_p 6)) 4096 32
       = strncpy ''mac'' 32"
    by blast
  have z: "dtb_get_serialised_node_size (DTBNode ?kept [DTBNode [] []]) = Inr 140"
    unfolding a [symmetric] by (rule example_tree_size)
  have y: "(case dtb_serialise_node example_tree (zeroed, 4096) of
         Inl e \<Rightarrow> False
       | Inr (mem', buf') \<Rightarrow> buf' = 4096 + 140 \<and> ldl_le_p mem' 4096 = 3)"
    unfolding s using k' by simp
  from g h' example_tree_size z b y w show ?thesis
    by (intro conjI)
qed


section \<open>Path resolution\<close>

lemma find_child_find: "find_child cs seg = find (\<lambda>child. name_matches child seg) cs"
  by (induction cs)
     (auto simp: name_matches_def dtb_find_prop_def g_hash_table_lookup_def split: option.splits)

declare get_node_tokens.simps(3) [simp del]

lemma get_node_tokens_refines:
  "NUL \<notin> set str \<Longrightarrow>
   get_node_tokens (Some node) (Some (str @ NUL # rest))
     = Inr (resolve_segments node (path_segments str))"
proof (induction str arbitrary: node rule: length_induct)
  case (1 str)
  let ?tok = "hd (spec_split CHR ''/'' str)"
  let ?next = "if CHR ''/'' \<in> set str
     then Some (tl (dropWhile (\<lambda>c. c \<noteq> CHR ''/'') str) @ NUL # rest) else None"
  let ?ts = "if CHR ''/'' \<in> set str
     then spec_split CHR ''/'' (tl (dropWhile (\<lambda>c. c \<noteq> CHR ''/'') str)) else []"
  have scan: "strsep_scan (str @ NUL # rest) ''/'' = Inr (?tok, ?next)"
    using 1(2) by (rule strsep_scan_text)
  have split: "spec_split CHR ''/'' str = ?tok # ?ts"
    by (rule spec_split_unfold)
  have nxt: "get_node_tokens (Some n) ?next
       = Inr (resolve_segments n (filter (\<lambda>t. t \<noteq> []) ?ts))" for n
  proof (cases "CHR ''/'' \<in> set str")
    case True
    have l: "length (tl (dropWhile (\<lambda>c. c \<noteq> CHR ''/'') str)) < length str"
      by (rule length_tl_dropWhile [OF True])
    have n: "NUL \<notin> set (tl (dropWhile (\<lambda>c. c \<noteq> CHR ''/'') str))"
      using 1(2) set_tl_dropWhile by fast
    from 1(1) l n have "get_node_tokens (Some n)
        (Some (tl (dropWhile (\<lambda>c. c \<noteq> CHR ''/'') str) @ NUL # rest))
        = Inr (resolve_segments n (path_segments (tl (dropWhile (\<lambda>c. c \<noteq> CHR ''/'') str))))"
      by blast
    with True show ?thesis by (simp add: path_segments_def)
  next
    case False
    then show ?thesis by simp
  qed
  show ?case
  proof (cases "?tok = []")
    case True
    have "path_segments str = filter (\<lambda>t. t \<noteq> []) ?ts"
      unfolding path_segments_def by (subst split) (simp add: True)
    with True show ?thesis
      by (subst get_node_tokens.simps(3)) (simp add: scan nxt)
  next
    case False
    have r: "path_segments str = ?tok # filter (\<lambda>t. t \<noteq> []) ?ts"
      unfolding path_segments_def by (subst split) (simp add: False)
    have step: "get_node_tokens (Some node) (Some (str @ NUL # rest)) =
       (case find (\<lambda>child. name_matches child ?tok) (children node) of
          None \<Rightarrow> Inr None
        | Some child \<Rightarrow> get_node_tokens (Some child) ?next)"
      by (subst get_node_tokens.simps(3)) (simp add: scan False find_child_find)
    show ?thesis
      unfolding step r
      by (cases "find (\<lambda>child. name_matches child ?tok) (children node)")
         (simp_all only: resolve_segments.simps option.case nxt)
  qed
qed

lemma dtb_get_node_refines:
  "NUL \<notin> set path \<Longrightarrow> dtb_get_node (Some node) path = Inr (resolve_segments node (path_segments path))"
proof -
  assume a: "NUL \<notin> set path"
  then have "takeWhile (\<lambda>c. c \<noteq> NUL) path = path"
    by (induction path) auto
  then have "dtb_get_node (Some node) path = get_node_tokens (Some node) (Some (path @ NUL # []))"
    by (simp only: dtb_get_node_def g_strdup_def)
  also have "\<dots> = Inr (resolve_segments node (path_segments path))"
    using a by (rule get_node_tokens_refines)
  finally show ?thesis .
qed

lemmas eval_path = path_segments_def name_matches_def named_node_def path_tree_def strncmp_eq_def

text \<open>
  Claim C7. For a path without NUL, the path resolver returns what the specification's
  resolution gives from the path's non-empty segments: each segment selects the first
  child whose \<^verbatim>\<open>name\<close> property compares equal to it, a segment without such a
  child gives NULL, and no segment at all gives the starting node. From NULL it returns
  NULL. In the tree of a root, \<^verbatim>\<open>cpu0\<close> and \<^verbatim>\<open>reg\<close>, the path
  \<^verbatim>\<open>cpu0/reg\<close> gives the grandchild, \<^verbatim>\<open>cpu0/missing\<close> gives NULL, and the
  empty path and a path of slashes give the root.
\<close>

theorem path_resolution:
  "(NUL \<notin> set path \<longrightarrow>
      dtb_get_node (Some node) path = Inr (resolve_segments node (path_segments path)))
   \<and> dtb_get_node None path = Inr None
   \<and> dtb_get_node (Some path_tree) ''cpu0/reg'' = Inr (Some (named_node ''reg'' []))
   \<and> dtb_get_node (Some path_tree) ''cpu0/missing'' = Inr None
   \<and> dtb_get_node (Some path_tree) '''' = Inr (Some path_tree)
   \<and> dtb_get_node (Some path_tree) ''//'' = Inr (Some path_tree)"
  by (simp add: dtb_get_node_refines) (simp add: dtb_get_node_def eval_path)

theorem path_resolution_witness:
  "dtb_get_node (Some path_tree) ''/cpu0//reg/'' = Inr (Some (named_node ''reg'' []))"
  using path_resolution [of "''/cpu0//reg/''" path_tree]
  by (simp add: eval_path)


section \<open>Nodes made by \<^verbatim>\<open>dtb_create_node\<close>\<close>

lemma cstring_takeWhile: "NUL \<notin> set s \<Longrightarrow> takeWhile (\<lambda>c. c \<noteq> NUL) s = s"
  by (induction s) auto

lemma strncmp_eq_name:
  assumes "NUL \<notin> set s" "NUL \<notin> set seg"
  shows "strncmp_eq (s @ [NUL]) seg (length s + 1) \<longleftrightarrow> seg = s"
proof -
  have a: "takeWhile (\<lambda>c. c \<noteq> NUL) (s @ [NUL]) = s"
    using assms(1) by (induction s) auto
  have b: "takeWhile (\<lambda>c. c \<noteq> NUL) seg = seg"
    using assms(2) by (rule cstring_takeWhile)
  have "s = take (length s + 1) seg \<longleftrightarrow> seg = s"
  proof
    assume e: "s = take (length s + 1) seg"
    then have "length s = min (length seg) (length s + 1)"
      by (metis length_take)
    then have "length seg \<le> length s" by linarith
    with e show "seg = s" by simp
  next
    assume "seg = s"
    then show "s = take (length s + 1) seg" by simp
  qed
  then show ?thesis by (simp add: strncmp_eq_def a b)
qed

lemma unat_strlen_plus_1:
  "length s + 1 < 2 ^ 32 \<Longrightarrow> unat (of_nat (Suc (length s)) :: u32) = Suc (length s)"
  by (simp add: unat_of_nat take_bit_nat_eq_self del: of_nat_Suc)

lemma dtb_set_prop_str_new_node:
  assumes "length s + 1 < 2 ^ 32"
  shows "dtb_set_prop_str dtb_new_node ''name'' s =
     Inr (\<lparr>length' = of_nat (length s + 1), data = s @ [NUL], placeholder = False\<rparr>,
          named_node s [])"
proof -
  note u = unat_strlen_plus_1 [OF assms]
  then have "(of_nat (Suc (length s)) :: u32) \<noteq> 0"
    by (metis nat.distinct(1) unat_0)
  with u show ?thesis
    by (simp add: dtb_set_prop_str_def dtb_set_prop_def dtb_new_node_def named_node_def
          strnlen_def DT_PROP_NAME_LEN_def dtb_find_prop_def g_hash_table_lookup_def
          g_hash_table_insert_def Let_def
          del: of_nat_Suc)
qed

lemma dtb_create_node_result:
  assumes "length s + 1 < 2 ^ 32"
    and "dtb_create_node parent (Some s) = Inr (Some node, parent')"
  shows "node = named_node s []
         \<and> parent' = map_option (\<lambda>p. DTBNode (props p) (children p @ [node])) parent"
  using assms(2)
  by (auto simp: dtb_create_node_def dtb_set_prop_str_new_node [OF assms(1)]
        split: sum.splits bool.splits if_splits option.splits)

lemma find_child_named_node:
  assumes "NUL \<notin> set s" "NUL \<notin> set seg" "length s + 1 < 2 ^ 32"
  shows "find_child [named_node s cs] seg = (if seg = s then Some (named_node s cs) else None)"
  using strncmp_eq_name [OF assms(1,2)] unat_strlen_plus_1 [OF assms(3)]
  by (simp add: named_node_def dtb_find_prop_def g_hash_table_lookup_def del: of_nat_Suc)

text \<open>
  Claim C10. A node that \<^verbatim>\<open>dtb_create_node\<close> returns for a name \<open>s\<close> (a C
  string, whose length with the terminator fits the 32-bit length field) has a
  \<^verbatim>\<open>name\<close> property of length \<open>strlen(s) + 1\<close> that holds \<open>s\<close> and the NUL, and
  the path resolver's comparison selects it for a segment exactly when the segment is
  \<open>s\<close>.
\<close>

theorem created_node_name_matches_exactly:
  assumes "NUL \<notin> set s" and "length s + 1 < 2 ^ 32"
    and "dtb_create_node parent (Some s) = Inr (Some node, parent')"
  shows "dtb_find_prop node ''name'' =
           Some \<lparr>length' = of_nat (length s + 1), data = s @ [NUL], placeholder = False\<rparr>
         \<and> unat (of_nat (length s + 1) :: u32) = length s + 1
         \<and> (\<forall>seg. NUL \<notin> set seg \<longrightarrow> (find_child [node] seg \<noteq> None \<longleftrightarrow> seg = s))"
proof -
  from dtb_create_node_result [OF assms(2,3)] have n: "node = named_node s []" by simp
  have "dtb_find_prop node ''name'' =
           Some \<lparr>length' = of_nat (length s + 1), data = s @ [NUL], placeholder = False\<rparr>"
    by (simp add: n named_node_def dtb_find_prop_def g_hash_table_lookup_def)
  moreover have "find_child [node] seg \<noteq> None \<longleftrightarrow> seg = s" if "NUL \<notin> set seg" for seg
    unfolding n find_child_named_node [OF assms(1) that assms(2)] by simp
  moreover have "unat (of_nat (length s + 1) :: u32) = length s + 1"
    using unat_strlen_plus_1 [OF assms(2)] by simp
  ultimately show ?thesis by blast
qed


theorem created_node_name_matches_exactly_witness:
  "dtb_create_node (Some dtb_new_node) (Some ''cpu0'')
     = Inr (Some (named_node ''cpu0'' []), Some (DTBNode [] [named_node ''cpu0'' []]))
   \<and> dtb_find_prop (named_node ''cpu0'' []) ''name''
       = Some \<lparr>length' = 5, data = ''cpu0'' @ [NUL], placeholder = False\<rparr>
   \<and> find_child [named_node ''cpu0'' []] ''cpu0'' \<noteq> None
   \<and> find_child [named_node ''cpu0'' []] ''cpu'' = None
   \<and> find_child [named_node ''cpu0'' []] ''cpu00'' = None"
proof -
  have c: "dtb_create_node (Some dtb_new_node) (Some ''cpu0'')
     = Inr (Some (named_node ''cpu0'' []), Some (DTBNode [] [named_node ''cpu0'' []]))"
    by (simp add: dtb_create_node_def dtb_get_node_def g_strdup_def get_node_tokens.simps
          dtb_new_node_def dtb_set_prop_str_def dtb_set_prop_def strnlen_def
          DT_PROP_NAME_LEN_def dtb_find_prop_def g_hash_table_lookup_def
          g_hash_table_insert_def named_node_def Let_def)
  from created_node_name_matches_exactly [OF _ _ c]
  show ?thesis
    by (simp add: c named_node_def dtb_find_prop_def g_hash_table_lookup_def strncmp_eq_def)
qed

lemma spec_split_no_delim: "d \<notin> set s \<Longrightarrow> spec_split d s = [s]"
  by (induction s) auto

lemma find_find_child: "find (\<lambda>child. name_matches child seg) cs = find_child cs seg"
  by (simp add: find_child_find)

lemma dtb_get_node_single_segment:
  assumes "name \<noteq> []" "CHR ''/'' \<notin> set name" "NUL \<notin> set name"
  shows "dtb_get_node (Some parent) name = Inr (find_child (children parent) name)"
  using assms
  by (simp add: dtb_get_node_refines path_segments_def spec_split_no_delim find_find_child
        split: option.splits)

lemma find_child_append:
  "find_child (cs @ ds) seg = (case find_child cs seg of None \<Rightarrow> find_child ds seg | Some c \<Rightarrow> Some c)"
  by (induction cs) (auto split: option.splits)

lemma find_child_None_iff:
  "find_child cs seg = None \<longleftrightarrow> (\<forall>c\<in>set cs. find_child [c] seg = None)"
  by (induction cs) (auto split: option.splits if_splits)

lemma dtb_create_node_duplicate:
  assumes "name \<noteq> []" "CHR ''/'' \<notin> set name" "NUL \<notin> set name"
    and "find_child (children parent) name \<noteq> None"
  shows "dtb_create_node (Some parent) (Some name) = Inr (None, Some parent)"
  using assms(4)
  by (auto simp: dtb_create_node_def dtb_get_node_single_segment [OF assms(1,2,3)])

lemma dtb_create_node_fresh:
  assumes "name \<noteq> []" "CHR ''/'' \<notin> set name" "NUL \<notin> set name"
    and "find_child (children parent) name = None" and "length name + 1 < 2 ^ 32"
  shows "dtb_create_node (Some parent) (Some name) =
     Inr (Some (named_node name []),
          Some (DTBNode (props parent) (children parent @ [named_node name []])))"
  using assms(4)
  by (simp add: dtb_create_node_def dtb_get_node_single_segment [OF assms(1,2,3)]
        dtb_set_prop_str_new_node [OF assms(5)])

text \<open>
  Claim C8, as amended. With a parent, \<^verbatim>\<open>dtb_create_node\<close> returns NULL for the
  name NULL. For a name that is one non-empty path segment (no slash), it returns NULL
  when a child of the parent has a matching \<^verbatim>\<open>name\<close> property; when none has, it
  returns the new node and appends it to the parent's children, a second call with the
  same name returns NULL and leaves the parent as it is, and exactly one child of the
  parent matches the name.
\<close>

theorem create_node_suppresses_duplicates:
  "dtb_create_node (Some parent) None = Inr (None, Some parent)
   \<and> (name \<noteq> [] \<and> CHR ''/'' \<notin> set name \<and> NUL \<notin> set name \<longrightarrow>
        (find_child (children parent) name \<noteq> None \<longrightarrow>
           dtb_create_node (Some parent) (Some name) = Inr (None, Some parent))
        \<and> (find_child (children parent) name = None \<and> length name + 1 < 2 ^ 32 \<longrightarrow>
             (let node = named_node name [];
                  parent' = DTBNode (props parent) (children parent @ [node])
              in dtb_create_node (Some parent) (Some name) = Inr (Some node, Some parent')
                 \<and> dtb_create_node (Some parent') (Some name) = Inr (None, Some parent')
                 \<and> length (filter (\<lambda>c. find_child [c] name \<noteq> None) (children parent')) = 1)))"
proof (intro conjI impI)
  show "dtb_create_node (Some parent) None = Inr (None, Some parent)"
    by (simp add: dtb_create_node_def)
next
  assume a: "name \<noteq> [] \<and> CHR ''/'' \<notin> set name \<and> NUL \<notin> set name"
  then have n: "name \<noteq> []" "CHR ''/'' \<notin> set name" "NUL \<notin> set name" by simp_all
  {
    assume "find_child (children parent) name \<noteq> None"
    then show "dtb_create_node (Some parent) (Some name) = Inr (None, Some parent)"
      by (rule dtb_create_node_duplicate [OF n])
  }
  assume b: "find_child (children parent) name = None \<and> length name + 1 < 2 ^ 32"
  then have f: "find_child (children parent) name = None" and l: "length name + 1 < 2 ^ 32"
    by simp_all
  let ?node = "named_node name []"
  let ?parent' = "DTBNode (props parent) (children parent @ [?node])"
  have own: "find_child [?node] name = Some ?node"
    using find_child_named_node [OF n(3) n(3) l, of "[]"] by simp
  have 1: "dtb_create_node (Some parent) (Some name) = Inr (Some ?node, Some ?parent')"
    by (rule dtb_create_node_fresh [OF n f l])
  have "find_child (children ?parent') name \<noteq> None"
    using own by (simp add: find_child_append f del: find_child.simps)
  then have 2: "dtb_create_node (Some ?parent') (Some name) = Inr (None, Some ?parent')"
    by (rule dtb_create_node_duplicate [OF n])
  have "filter (\<lambda>c. find_child [c] name \<noteq> None) (children parent) = []"
    using f by (simp add: find_child_None_iff filter_empty_conv)
  then have 3: "length (filter (\<lambda>c. find_child [c] name \<noteq> None) (children ?parent')) = 1"
    using own by (simp del: find_child.simps)
  from 1 2 3 show "let node = named_node name [];
                  parent' = DTBNode (props parent) (children parent @ [node])
              in dtb_create_node (Some parent) (Some name) = Inr (Some node, Some parent')
                 \<and> dtb_create_node (Some parent') (Some name) = Inr (None, Some parent')
                 \<and> length (filter (\<lambda>c. find_child [c] name \<noteq> None) (children parent')) = 1"
    by (simp add: Let_def)
qed


lemmas eval_create = dtb_create_node_def dtb_get_node_def g_strdup_def get_node_tokens.simps
  dtb_new_node_def dtb_set_prop_str_def dtb_set_prop_def strnlen_def DT_PROP_NAME_LEN_def
  dtb_find_prop_def g_hash_table_lookup_def g_hash_table_insert_def named_node_def Let_def
  strncmp_eq_def

theorem create_node_suppresses_duplicates_witness:
  "dtb_create_node (Some (DTBNode [] [])) None = Inr (None, Some (DTBNode [] []))
   \<and> dtb_create_node (Some (DTBNode [] [])) (Some ''cpu0'')
       = Inr (Some (named_node ''cpu0'' []), Some (DTBNode [] [named_node ''cpu0'' []]))
   \<and> dtb_create_node (Some (DTBNode [] [named_node ''cpu0'' []])) (Some ''cpu0'')
       = Inr (None, Some (DTBNode [] [named_node ''cpu0'' []]))
   \<and> length (filter (\<lambda>c. find_child [c] ''cpu0'' \<noteq> None) [named_node ''cpu0'' []]) = 1"
  using create_node_suppresses_duplicates [of "DTBNode [] []" "''cpu0''"]
    create_node_suppresses_duplicates [of "DTBNode [] [named_node ''cpu0'' []]" "''cpu0''"]
  by (simp add: Let_def named_node_def dtb_find_prop_def g_hash_table_lookup_def strncmp_eq_def)

theorem slash_name_counterexample:
  "find_child [named_node ''a/b'' []] ''a/b'' = Some (named_node ''a/b'' [])
   \<and> dtb_create_node (Some (DTBNode [] [])) (Some ''a/b'')
       = Inr (Some (named_node ''a/b'' []), Some (DTBNode [] [named_node ''a/b'' []]))
   \<and> dtb_create_node (Some (DTBNode [] [named_node ''a/b'' []])) (Some ''a/b'')
       = Inr (Some (named_node ''a/b'' []),
              Some (DTBNode [] [named_node ''a/b'' [], named_node ''a/b'' []]))"
  by (simp add: eval_create)


section \<open>Rounding and the placeholder bit\<close>

lemma and_minus_4: "(y :: u32) AND - 4 = push_bit 2 (drop_bit 2 y)"
proof -
  have h: "(- 4 :: u32) = NOT (mask 2)"
    using minus_exp_eq_not_mask [of 2, where ?'a = u32] by simp
  have s: "2 \<le> n \<Longrightarrow> Suc (Suc (n - 2)) = n" for n by simp
  have "y AND NOT (mask 2) = push_bit 2 (drop_bit 2 y)"
    by (rule bit_eqI) (auto simp: bit_simps s not_less)
  then show ?thesis by (simp only: h)
qed

lemma unat_ROUND_UP:
  assumes "unat len \<le> 2 ^ 32 - 4"
  shows "unat (ROUND_UP len 4) = (unat len + 3) div 4 * 4"
proof -
  have y: "unat (3 + len) = unat len + 3"
    using assms by (simp add: unat_word_ariths)
  have "unat (ROUND_UP len 4) = take_bit 32 (push_bit 2 (drop_bit 2 (unat len + 3)))"
    by (simp add: ROUND_UP_def and_minus_4 unsigned_push_bit_eq unat_drop_bit_eq y)
  also have "\<dots> = (unat len + 3) div 4 * 4"
    using assms by (simp add: push_bit_eq_mult drop_bit_eq_div take_bit_nat_eq_self)
  finally show ?thesis .
qed

lemma unat_le_ROUND_UP:
  "unat len \<le> 2 ^ 32 - 4 \<Longrightarrow> unat len \<le> unat (ROUND_UP len 4)"
  by (simp add: unat_ROUND_UP)

lemma no_placeholder_bit:
  assumes "unat (len :: u32) < 2 ^ 31"
  shows "len AND DT_PROP_PLACEHOLDER = 0"
proof -
  have "\<not> bit len 31"
  proof
    assume "bit len 31"
    then have "bit (unat len) 31" by (simp add: bit_unsigned_iff)
    then have "2 ^ 31 \<le> unat len"
      by (simp add: bit_iff_odd_drop_bit drop_bit_eq_div) (metis div_greater_zero_iff odd_pos zero_less_numeral)
    with assms show False by simp
  qed
  then show ?thesis
    by (simp add: DT_PROP_PLACEHOLDER_def bit_iff_and_push_bit_not_eq_0)
qed


section \<open>The round trip\<close>

lemma strncpy_name:
  assumes "NUL \<notin> set k" "length k \<le> 32"
  shows "strncpy k 32 = k @ replicate (32 - length k) NUL"
  using assms by (simp add: strncpy_def cstring_takeWhile)

lemma strnlen_padded:
  assumes "NUL \<notin> set k" "length k \<le> 32"
  shows "strnlen (k @ replicate (32 - length k) NUL) 32 = length k"
proof -
  have "takeWhile (\<lambda>c. c \<noteq> NUL) (k @ replicate n NUL) = k" for n
    using assms(1) by (induction k) (auto simp: takeWhile_replicate)
  with assms(2) show ?thesis by (simp add: strnlen_def)
qed

lemma memread_take:
  "m \<le> n \<Longrightarrow> memread mem p m = take m (memread mem p n)"
  by (simp add: list_eq_iff_nth_eq)

lemma prop_roundtrip:
  assumes ok: "prop_ok (k, p)"
  shows "\<exists>mem'. serialise_prop (k, p) (mem, buf, cnt)
            = Inr (mem', buf + 36 + unat (ROUND_UP (length' p) 4), cnt)
         \<and> (\<forall>mem''. (\<forall>a. buf \<le> a \<and> a < buf + 36 + unat (ROUND_UP (length' p) 4)
                          \<longrightarrow> mem'' a = mem' a)
              \<longrightarrow> dtb_deserialise_prop mem'' buf
                    = (Some p, k, buf + 36 + unat (ROUND_UP (length' p) 4)))"
proof -
  let ?len = "length' p"
  let ?end = "buf + 36 + unat (ROUND_UP ?len 4)"
  from ok have k: "k \<noteq> []" "NUL \<notin> set k" "length k \<le> 32"
    and np: "\<not> placeholder p" and ld: "unat ?len = length (data p)" and lt: "unat ?len < 2 ^ 31"
    by (simp_all add: prop_ok_def DT_PROP_NAME_LEN_def)
  define mem1 where "mem1 = memcpy mem buf (strncpy k 32)"
  define mem2 where "mem2 = memcpy mem1 (buf + 32) (stl_le_p ?len)"
  define mem' where "mem' = (if ?len \<noteq> 0 then memcpy mem2 (buf + 36) (data p) else mem2)"
  have ru: "unat ?len \<le> unat (ROUND_UP ?len 4)"
    using lt by (intro unat_le_ROUND_UP) simp
  have ser: "serialise_prop (k, p) (mem, buf, cnt) = Inr (mem', ?end, cnt)"
    using np ld
    by (simp add: serialise_prop_def Let_def DT_PROP_NAME_LEN_def mem'_def mem2_def mem1_def
          add.assoc)
  have name: "memread mem' buf 32 = strncpy k 32"
    by (simp add: list_eq_iff_nth_eq mem'_def mem2_def mem1_def memcpy_apply)
  have lenf: "\<forall>i<4. mem' (buf + 32 + i) = stl_le_p ?len ! i"
    by (auto simp: mem'_def mem2_def mem1_def memcpy_apply)
  have dat: "?len \<noteq> 0 \<Longrightarrow> memread mem' (buf + 36) (unat ?len) = data p"
    by (simp add: list_eq_iff_nth_eq mem'_def memcpy_apply ld)
  have "dtb_deserialise_prop mem'' buf = (Some p, k, ?end)"
    if agree: "\<forall>a. buf \<le> a \<and> a < ?end \<longrightarrow> mem'' a = mem' a" for mem''
  proof -
    have n1: "memread mem'' buf 32 = k @ replicate (32 - length k) NUL"
    proof -
      have "memread mem'' buf 32 = memread mem' buf 32"
        using agree by (intro memread_cong) auto
      then show ?thesis by (simp add: name strncpy_name [OF k(2,3)])
    qed
    have n2: "strnlen (memread mem'' buf 32) 32 = length k"
      by (simp add: n1 strnlen_padded [OF k(2,3)])
    have n3: "memread mem'' buf (length k) = k"
      using memread_take [OF k(3), of mem'' buf] by (simp add: n1)
    have l1: "ldl_le_p mem'' (buf + 32) = ?len"
    proof (rule ldl_le_p_stl_le_p)
      show "\<forall>i<4. mem'' (buf + 32 + i) = stl_le_p ?len ! i"
        using agree lenf by auto
    qed
    have fl: "?len AND DT_PROP_PLACEHOLDER = 0"
      using lt by (rule no_placeholder_bit)
    have d1: "memread mem'' (buf + 36) (unat ?len) = data p" if "?len \<noteq> 0"
    proof -
      have "memread mem'' (buf + 36) (unat ?len) = memread mem' (buf + 36) (unat ?len)"
        using agree ru by (intro memread_cong) auto
      with dat [OF that] show ?thesis by simp
    qed
    have e: "p = \<lparr>length' = ?len, data = data p, placeholder = False\<rparr>"
      using np by simp
    have z: "?len = 0 \<Longrightarrow> data p = []"
      using ld by simp
    show ?thesis
    proof (cases "?len = 0")
      case True
      then show ?thesis
        using z np
        by (simp add: dtb_deserialise_prop_def Let_def DT_PROP_NAME_LEN_def n2 n3 l1 fl
              add.assoc)
    next
      case False
      then show ?thesis
        using np
        by (simp add: dtb_deserialise_prop_def Let_def DT_PROP_NAME_LEN_def n2 n3 l1 fl
              d1 add.assoc)
    qed
  qed
  with ser show ?thesis by blast
qed


lemma props_roundtrip:
  assumes "list_all prop_ok ps" "distinct (map fst ps)" "fst ` set table \<inter> fst ` set ps = {}"
  shows "\<exists>mem' buf'. serialise_props ps (mem, buf, cnt) = Inr (mem', buf', cnt)
         \<and> (\<forall>mem''. (\<forall>a. buf \<le> a \<and> a < buf' \<longrightarrow> mem'' a = mem' a)
              \<longrightarrow> deserialise_props mem'' (length ps) (table, buf)
                    = Inr (Some (table @ ps), buf'))"
  using assms
proof (induction ps arbitrary: mem buf table)
  case Nil
  show ?case by simp
next
  case (Cons kv ps)
  obtain k p where kv: "kv = (k, p)" by (cases kv)
  from Cons.prems have ok: "prop_ok (k, p)" and oks: "list_all prop_ok ps"
    and dist: "distinct (map fst ps)" and fresh: "k \<notin> fst ` set table"
    and disj: "fst ` set (table @ [(k, p)]) \<inter> fst ` set ps = {}"
    by (auto simp: kv)
  let ?b1 = "buf + 36 + unat (ROUND_UP (length' p) 4)"
  from prop_roundtrip [OF ok, where mem=mem and buf=buf and cnt=cnt] obtain mem1 where
    s1: "serialise_prop (k, p) (mem, buf, cnt) = Inr (mem1, ?b1, cnt)"
    and d1: "\<And>mem''. (\<forall>a. buf \<le> a \<and> a < ?b1 \<longrightarrow> mem'' a = mem1 a)
              \<Longrightarrow> dtb_deserialise_prop mem'' buf = (Some p, k, ?b1)"
    by blast
  from Cons.IH [OF oks dist disj, where mem=mem1 and buf="?b1"] obtain mem' buf' where
    s2: "serialise_props ps (mem1, ?b1, cnt) = Inr (mem', buf', cnt)"
    and d2: "\<And>mem''. (\<forall>a. ?b1 \<le> a \<and> a < buf' \<longrightarrow> mem'' a = mem' a)
              \<Longrightarrow> deserialise_props mem'' (length ps) (table @ [(k, p)], ?b1)
                    = Inr (Some ((table @ [(k, p)]) @ ps), buf')"
    by blast
  from serialise_props_frame [OF s2] have le: "?b1 \<le> buf'"
    and fr: "\<forall>a<?b1. mem' a = mem1 a" by simp_all
  have ne: "k \<noteq> []" using ok by (simp add: prop_ok_def)
  have "deserialise_props mem'' (length (kv # ps)) (table, buf) = Inr (Some (table @ kv # ps), buf')"
    if agree: "\<forall>a. buf \<le> a \<and> a < buf' \<longrightarrow> mem'' a = mem' a" for mem''
  proof -
    have a1: "dtb_deserialise_prop mem'' buf = (Some p, k, ?b1)"
      using agree fr le by (intro d1) auto
    have a2: "deserialise_props mem'' (length ps) (table @ [(k, p)], ?b1)
                    = Inr (Some ((table @ [(k, p)]) @ ps), buf')"
      using agree by (intro d2) auto
    show ?thesis
      using fresh by (simp add: a1 a2 ne kv g_hash_table_insert_def)
  qed
  with s1 s2 show ?case by (auto simp: kv)
qed

lemma depth_child: "c \<in> set cs \<Longrightarrow> depth c \<le> foldr (\<lambda>c. max (depth c)) cs 0"
  by (induction cs) auto

lemma children_roundtrip:
  assumes ih: "\<And>c mem buf. c \<in> set cs \<Longrightarrow> buf \<noteq> 0 \<Longrightarrow>
      \<exists>mem' buf'. dtb_serialise_node c (mem, buf) = Inr (mem', buf')
         \<and> (\<forall>mem'' fuel. (\<forall>a. buf \<le> a \<and> a < buf' \<longrightarrow> mem'' a = mem' a)
              \<longrightarrow> depth c \<le> fuel
              \<longrightarrow> dtb_deserialise_node fuel mem'' buf = Inr (Some c, buf'))"
    and nz: "buf \<noteq> 0"
  shows "\<exists>mem' buf'. serialise_children cs (mem, buf) = Inr (mem', buf')
         \<and> (\<forall>mem'' fuel. (\<forall>a. buf \<le> a \<and> a < buf' \<longrightarrow> mem'' a = mem' a)
              \<longrightarrow> foldr (\<lambda>c. max (depth c)) cs 0 \<le> fuel
              \<longrightarrow> deserialise_children fuel mem'' (length cs) (acc, buf)
                    = Inr (Some (acc @ cs), buf'))"
  using assms
proof (induction cs arbitrary: mem buf acc)
  case Nil
  show ?case by simp
next
  case (Cons c cs)
  from Cons.prems(1) [where c=c and mem=mem and buf=buf] Cons.prems(2) obtain mem1 buf1 where
    s1: "dtb_serialise_node c (mem, buf) = Inr (mem1, buf1)"
    and d1: "\<And>mem'' fuel. (\<forall>a. buf \<le> a \<and> a < buf1 \<longrightarrow> mem'' a = mem1 a)
              \<Longrightarrow> depth c \<le> fuel
              \<Longrightarrow> dtb_deserialise_node fuel mem'' buf = Inr (Some c, buf1)"
    by auto
  from dtb_serialise_node_frame [OF s1] have le1: "buf \<le> buf1" by simp
  with Cons.prems(2) have nz1: "buf1 \<noteq> 0" by simp
  have "\<exists>mem' buf'. serialise_children cs (mem1, buf1) = Inr (mem', buf')
         \<and> (\<forall>mem'' fuel. (\<forall>a. buf1 \<le> a \<and> a < buf' \<longrightarrow> mem'' a = mem' a)
              \<longrightarrow> foldr (\<lambda>c. max (depth c)) cs 0 \<le> fuel
              \<longrightarrow> deserialise_children fuel mem'' (length cs) (acc @ [c], buf1)
                    = Inr (Some ((acc @ [c]) @ cs), buf'))"
    by (rule Cons.IH [OF _ nz1]) (rule Cons.prems(1), simp_all)
  then obtain mem' buf' where
    s2: "serialise_children cs (mem1, buf1) = Inr (mem', buf')"
    and d2: "\<And>mem'' fuel. (\<forall>a. buf1 \<le> a \<and> a < buf' \<longrightarrow> mem'' a = mem' a)
              \<Longrightarrow> foldr (\<lambda>c. max (depth c)) cs 0 \<le> fuel
              \<Longrightarrow> deserialise_children fuel mem'' (length cs) (acc @ [c], buf1)
                    = Inr (Some ((acc @ [c]) @ cs), buf')"
    by blast
  have fr: "buf1 \<le> buf' \<and> (\<forall>a<buf1. mem' a = mem1 a)"
    using serialise_children_frame [OF _ s2] dtb_serialise_node_frame by blast
  have "deserialise_children fuel mem'' (length (c # cs)) (acc, buf) = Inr (Some (acc @ c # cs), buf')"
    if agree: "\<forall>a. buf \<le> a \<and> a < buf' \<longrightarrow> mem'' a = mem' a"
      and fuel: "foldr (\<lambda>c. max (depth c)) (c # cs) 0 \<le> fuel" for mem'' fuel
  proof -
    have a1: "dtb_deserialise_node fuel mem'' buf = Inr (Some c, buf1)"
      using agree fr fuel by (intro d1) auto
    have a2: "deserialise_children fuel mem'' (length cs) (acc @ [c], buf1)
                    = Inr (Some ((acc @ [c]) @ cs), buf')"
      using agree le1 fuel by (intro d2) auto
    show ?thesis by (simp add: a1 a2)
  qed
  with s1 s2 show ?case by auto
qed


lemma unat_count: "n < 2 ^ 32 \<Longrightarrow> unat (of_nat n :: u32) = n"
  by (simp add: unat_of_nat take_bit_nat_eq_self)

lemma node_roundtrip:
  assumes "tree_ok T" "buf \<noteq> 0"
  shows "\<exists>mem' buf'. dtb_serialise_node T (mem, buf) = Inr (mem', buf')
         \<and> (\<forall>mem'' fuel. (\<forall>a. buf \<le> a \<and> a < buf' \<longrightarrow> mem'' a = mem' a)
              \<longrightarrow> depth T \<le> fuel
              \<longrightarrow> dtb_deserialise_node fuel mem'' buf = Inr (Some T, buf'))"
  using assms
proof (induction T arbitrary: mem buf)
  case (DTBNode ps cs)
  from DTBNode.prems(1) have dist: "distinct (map fst ps)" and oks: "list_all prop_ok ps"
    and lp: "length ps < 2 ^ 32" and lc: "length cs < 2 ^ 32" and cok: "list_all tree_ok cs"
    by simp_all
  note nz = DTBNode.prems(2)
  define mem1 where "mem1 = memcpy mem (buf + 4) (stl_le_p (g_list_length cs))"
  from props_roundtrip [OF oks dist, of "[]", where mem=mem1 and buf="8 + buf"
      and cnt="g_hash_table_size ps"]
  obtain mem2 buf3 where
    sp: "serialise_props ps (mem1, 8 + buf, g_hash_table_size ps)
           = Inr (mem2, buf3, g_hash_table_size ps)"
    and dp: "\<And>mem''. (\<forall>a. 8 + buf \<le> a \<and> a < buf3 \<longrightarrow> mem'' a = mem2 a)
              \<Longrightarrow> deserialise_props mem'' (length ps) ([], 8 + buf) = Inr (Some ps, buf3)"
    by auto
  from serialise_props_frame [OF sp] have le3: "buf + 8 \<le> buf3"
    and fr2: "\<forall>a<buf + 8. mem2 a = mem1 a" by simp_all
  define mem3 where "mem3 = memcpy mem2 buf (stl_le_p (g_hash_table_size ps))"
  from le3 have nz3: "buf3 \<noteq> 0" by simp
  have "\<exists>mem' buf'. serialise_children cs (mem3, buf3) = Inr (mem', buf')
         \<and> (\<forall>mem'' fuel. (\<forall>a. buf3 \<le> a \<and> a < buf' \<longrightarrow> mem'' a = mem' a)
              \<longrightarrow> foldr (\<lambda>c. max (depth c)) cs 0 \<le> fuel
              \<longrightarrow> deserialise_children fuel mem'' (length cs) ([], buf3)
                    = Inr (Some ([] @ cs), buf'))"
  proof (rule children_roundtrip [OF _ nz3])
    fix c mem buf
    assume "c \<in> set cs" "buf \<noteq> (0::nat)"
    with cok show "\<exists>mem' buf'. dtb_serialise_node c (mem, buf) = Inr (mem', buf')
         \<and> (\<forall>mem'' fuel. (\<forall>a. buf \<le> a \<and> a < buf' \<longrightarrow> mem'' a = mem' a)
              \<longrightarrow> depth c \<le> fuel
              \<longrightarrow> dtb_deserialise_node fuel mem'' buf = Inr (Some c, buf'))"
      by (intro DTBNode.IH) (auto simp: list_all_iff)
  qed
  then obtain mem' buf' where
    sc: "serialise_children cs (mem3, buf3) = Inr (mem', buf')"
    and dc: "\<And>mem'' fuel. (\<forall>a. buf3 \<le> a \<and> a < buf' \<longrightarrow> mem'' a = mem' a)
              \<Longrightarrow> foldr (\<lambda>c. max (depth c)) cs 0 \<le> fuel
              \<Longrightarrow> deserialise_children fuel mem'' (length cs) ([], buf3) = Inr (Some cs, buf')"
    by auto
  have frc: "buf3 \<le> buf' \<and> (\<forall>a<buf3. mem' a = mem3 a)"
    using serialise_children_frame [OF _ sc] dtb_serialise_node_frame by blast
  have ser: "dtb_serialise_node (DTBNode ps cs) (mem, buf) = Inr (mem', buf')"
    by (simp add: Let_def mem1_def [symmetric] sp mem3_def [symmetric] sc)
  have "dtb_deserialise_node fuel mem'' buf = Inr (Some (DTBNode ps cs), buf')"
    if agree: "\<forall>a. buf \<le> a \<and> a < buf' \<longrightarrow> mem'' a = mem' a"
      and fuel: "depth (DTBNode ps cs) \<le> fuel" for mem'' fuel
  proof -
    from fuel obtain f where f: "fuel = Suc f" and ff: "foldr (\<lambda>c. max (depth c)) cs 0 \<le> f"
      by (cases fuel) auto
    have pc: "ldl_le_p mem'' buf = g_hash_table_size ps"
    proof (rule ldl_le_p_stl_le_p)
      show "\<forall>i<4. mem'' (buf + i) = stl_le_p (g_hash_table_size ps) ! i"
        using agree frc le3 by (auto simp: mem3_def memcpy_apply)
    qed
    have cc: "ldl_le_p mem'' (buf + 4) = g_list_length cs"
    proof (rule ldl_le_p_stl_le_p)
      show "\<forall>i<4. mem'' (buf + 4 + i) = stl_le_p (g_list_length cs) ! i"
        using agree frc le3 fr2 by (auto simp: mem3_def mem1_def memcpy_apply)
    qed
    have up: "unat (g_hash_table_size ps) = length ps"
      using lp by (simp add: g_hash_table_size_def unat_count)
    have uc: "unat (g_list_length cs) = length cs"
      using lc by (simp add: g_list_length_def unat_count)
    have a1: "deserialise_props mem'' (length ps) ([], 8 + buf) = Inr (Some ps, buf3)"
      using agree frc le3 by (intro dp) (auto simp: mem3_def memcpy_apply)
    have a2: "deserialise_children f mem'' (length cs) ([], buf3) = Inr (Some cs, buf')"
      using agree le3 ff by (intro dc) auto
    show ?thesis
      using nz by (simp add: f Let_def pc cc up uc a1 a2)
  qed
  with ser show ?case by blast
qed

lemma tree_ok_props_children: "tree_ok T = tree_ok (DTBNode (props T) (children T))"
  by simp

lemma map_fst_replace:
  "map fst (map (\<lambda>(k, w). if k = name then (k, v) else (k, w)) table) = map fst table"
  by (induction table) auto

lemma dtb_set_prop_tree_ok:
  assumes ok: "tree_ok node" and name: "name \<noteq> []" "NUL \<notin> set name"
    and sz: "unat size' < 2 ^ 31" and cnt: "length (props node) + 1 < 2 ^ 32"
    and set: "dtb_set_prop node name size' val = Inr (pr, node')"
  shows "tree_ok node'"
proof -
  obtain ps cs where node: "node = DTBNode ps cs" by (cases node)
  from set have g1: "\<not> (case val of None \<Rightarrow> size' \<noteq> 0 | Some v \<Rightarrow> size' = 0)"
    and g2: "strnlen name DT_PROP_NAME_LEN < DT_PROP_NAME_LEN"
    and g3: "\<not> (case val of None \<Rightarrow> False | Some v \<Rightarrow> length v < unat size')"
    by (auto simp: dtb_set_prop_def split: if_splits)
  define new where "new = \<lparr>length' = size',
       data = (case val of None \<Rightarrow> [] | Some v \<Rightarrow> take (unat size') v), placeholder = False\<rparr>"
  from g2 name(2) have ln: "length name < DT_PROP_NAME_LEN"
    by (simp add: strnlen_def cstring_takeWhile)
  from g1 g3 have "unat size' = length (data new)"
    by (cases val) (auto simp: new_def)
  with name ln sz have pok: "prop_ok (name, new)"
    by (simp add: prop_ok_def new_def)
  from ok have dist: "distinct (map fst ps)" and oks: "list_all prop_ok ps"
    and rest: "length cs < 2 ^ 32" "list_all tree_ok cs"
    by (simp_all add: node)
  show ?thesis
  proof (cases "dtb_find_prop node name")
    case None
    then have fresh: "name \<notin> fst ` set ps"
      by (simp add: dtb_find_prop_def g_hash_table_lookup_def node map_of_eq_None_iff)
    from set g1 g2 g3 None have "node' = DTBNode (ps @ [(name, new)]) cs"
      by (auto simp: dtb_set_prop_def Let_def new_def g_hash_table_insert_def node fresh)
    with dist oks rest pok fresh cnt show ?thesis
      by (simp add: node)
  next
    case (Some old)
    from set g1 g2 g3 Some have
      "node' = DTBNode (map (\<lambda>(k, w). if k = name then (k, new) else (k, w)) ps) cs"
      by (auto simp: dtb_set_prop_def Let_def new_def node)
    moreover have "list_all prop_ok (map (\<lambda>(k, w). if k = name then (k, new) else (k, w)) ps)"
      using oks pok by (auto simp: list_all_iff)
    moreover have "distinct (map fst (map (\<lambda>(k, w). if k = name then (k, new) else (k, w)) ps))"
      using dist by (simp only: map_fst_replace)
    ultimately show ?thesis
      using rest cnt by (simp add: node del: map_map)
  qed
qed

lemma dtb_create_node_tree_ok:
  assumes ok: "tree_ok parent" and name: "NUL \<notin> set s" "length s + 1 < 2 ^ 31"
    and cnt: "length (children parent) + 1 < 2 ^ 32"
    and mk: "dtb_create_node (Some parent) (Some s) = Inr (Some node, Some parent')"
  shows "tree_ok node \<and> tree_ok parent'"
proof -
  from name(2) have l: "length s + 1 < 2 ^ 32" by simp
  from dtb_create_node_result [OF l mk] have n: "node = named_node s []"
    and p: "parent' = DTBNode (props parent) (children parent @ [node])" by simp_all
  have u: "unat (of_nat (Suc (length s)) :: u32) = Suc (length s)"
    by (rule unat_strlen_plus_1 [OF l])
  have nok: "tree_ok node"
    using name u by (simp add: n named_node_def prop_ok_def DT_PROP_NAME_LEN_def del: of_nat_Suc)
  obtain ps cs where parent: "parent = DTBNode ps cs" by (cases parent)
  from ok cnt nok show ?thesis
    by (simp add: p parent)
qed

lemma unnamed_built: "map_sum id snd (dtb_set_prop_u32 dtb_new_node '''' 7) = Inr unnamed_prop_tree"
  by (simp add: dtb_set_prop_u32_def dtb_set_prop_def dtb_new_node_def strnlen_def
        DT_PROP_NAME_LEN_def dtb_find_prop_def g_hash_table_lookup_def g_hash_table_insert_def
        unnamed_prop_tree_def Let_def)

lemma unnamed_ser:
  "dtb_serialise_node unnamed_prop_tree (zeroed, 4096) =
     Inr (memcpy (memcpy (memcpy (memcpy (memcpy zeroed 4100 (stl_le_p 0)) 4104 (strncpy '''' 32))
            4136 (stl_le_p 4)) 4140 (stl_le_p 7)) 4096 (stl_le_p 1), 4144)"
  by (simp add: unnamed_prop_tree_def serialise_prop_def Let_def DT_PROP_NAME_LEN_def
        g_hash_table_size_def g_list_length_def ROUND_UP_def del: memcpy.simps)

lemma unnamed_deser:
  "dtb_deserialise (Suc 0)
     (memcpy (memcpy (memcpy (memcpy (memcpy zeroed 4100 (stl_le_p 0)) 4104 (strncpy '''' 32))
            4136 (stl_le_p 4)) 4140 (stl_le_p 7)) 4096 (stl_le_p 1)) 4096
   = Inr (Some (DTBNode [] []))"
proof -
  let ?mem = "memcpy (memcpy (memcpy (memcpy (memcpy zeroed 4100 (stl_le_p 0)) 4104 (strncpy '''' 32))
            4136 (stl_le_p 4)) 4140 (stl_le_p 7)) 4096 (stl_le_p 1)"
  have pc: "ldl_le_p ?mem 4096 = 1"
    by (rule ldl_le_p_stl_le_p) (simp add: memcpy_apply)
  have cc: "ldl_le_p ?mem (4096 + 4) = 0"
    by (rule ldl_le_p_stl_le_p) (simp add: memcpy_apply)
  have len: "ldl_le_p ?mem (4104 + 32) = 4"
    by (rule ldl_le_p_stl_le_p) (simp add: memcpy_apply)
  have name: "memread ?mem 4104 32 = strncpy '''' 32"
    by (simp add: list_eq_iff_nth_eq memcpy_apply)
  have n0: "strnlen (strncpy [] 32) 32 = 0"
    by (simp add: strnlen_def strncpy_def)
  have m0: "memread m q 0 = []" for m q
    by (simp add: memread_def)
  have p: "dtb_deserialise_prop ?mem 4104 =
      (Some \<lparr>length' = 4, data = memread ?mem 4140 4, placeholder = False\<rparr>, [], 4144)"
    using len
    by (simp add: dtb_deserialise_prop_def Let_def DT_PROP_NAME_LEN_def name n0 m0
          DT_PROP_PLACEHOLDER_def ROUND_UP_def)
  show ?thesis
    using pc cc by (simp add: dtb_deserialise_def Let_def p)
qed

lemma serialise_result_size:
  assumes "dtb_serialise_node T (mem, buf) = Inr (mem', buf')"
  shows "dtb_get_serialised_node_size T = Inr (word_of_nat (buf' - buf))"
proof -
  from dtb_serialise_node_frame [OF assms] have le: "buf \<le> buf'" by simp
  from dtb_serialise_node_rel [of "(mem, buf)" T] show ?thesis
  proof (cases rule: rel_sum_cases)
    case (Inl a b)
    with assms show ?thesis by simp
  next
    case (Inr a b)
    with assms le show ?thesis by (auto simp: of_nat_diff)
  qed
qed

text \<open>
  Claim C4, as amended. For every tree of properties with non-empty names and payloads
  shorter than \<open>2 ^ 31\<close> bytes, without placeholders, serialised at a non-null address:
  the serialiser returns, it has written as many bytes as the size calculator says, and
  from any memory that holds these bytes the deserialiser, run with enough depth, returns
  the same tree: every node with the same properties (names, lengths, payloads) and the
  same children in the same order.
\<close>

theorem serialise_deserialise_roundtrip:
  assumes "tree_ok T" and "buf \<noteq> 0"
  shows "\<exists>mem' buf'. dtb_serialise_node T (mem, buf) = Inr (mem', buf')
           \<and> dtb_get_serialised_node_size T = Inr (of_nat (buf' - buf))
           \<and> (\<forall>mem'' fuel. (\<forall>a. buf \<le> a \<and> a < buf' \<longrightarrow> mem'' a = mem' a)
                  \<longrightarrow> depth T \<le> fuel
                  \<longrightarrow> dtb_deserialise fuel mem'' buf = Inr (Some T))"
proof -
  from node_roundtrip [OF assms, of mem] obtain mem' buf' where
    s: "dtb_serialise_node T (mem, buf) = Inr (mem', buf')"
    and d: "\<And>mem'' fuel. (\<forall>a. buf \<le> a \<and> a < buf' \<longrightarrow> mem'' a = mem' a)
              \<Longrightarrow> depth T \<le> fuel
              \<Longrightarrow> dtb_deserialise_node fuel mem'' buf = Inr (Some T, buf')"
    by blast
  from serialise_result_size [OF s]
  have "dtb_get_serialised_node_size T = Inr (of_nat (buf' - buf))" .
  with s d show ?thesis
    by (auto simp: dtb_deserialise_def)
qed

theorem serialise_deserialise_roundtrip_witness:
  "\<exists>mem' buf'. dtb_serialise_node path_tree (zeroed, 4096) = Inr (mem', buf')
      \<and> dtb_deserialise 3 mem' 4096 = Inr (Some path_tree)"
proof -
  have ok: "tree_ok path_tree"
    by (simp add: path_tree_def named_node_def prop_ok_def DT_PROP_NAME_LEN_def)
  have d: "depth path_tree = 3"
    by (simp add: path_tree_def named_node_def)
  from serialise_deserialise_roundtrip [OF ok, of 4096 zeroed] d
  show ?thesis by fastforce
qed

theorem empty_name_counterexample:
  "map_sum id snd (dtb_set_prop_u32 dtb_new_node '''' 7) = Inr unnamed_prop_tree
   \<and> (case dtb_serialise_node unnamed_prop_tree (zeroed, 4096) of
         Inl e \<Rightarrow> False
       | Inr (mem', buf') \<Rightarrow>
           dtb_deserialise 1 mem' 4096 = Inr (Some (DTBNode [] []))
           \<and> DTBNode [] [] \<noteq> unnamed_prop_tree)"
proof -
  have "DTBNode [] [] \<noteq> unnamed_prop_tree"
    by (simp add: unnamed_prop_tree_def)
  with unnamed_deser show ?thesis
    unfolding unnamed_ser by (simp add: unnamed_built)
qed

section \<open>The deserialiser on any memory\<close>
























end
